theory Spec2Isabelle
  imports Main "HOL-Library.Product_Lexorder"
begin

section \<open>Data model of puzzle\_gen.cpp\<close>

text \<open>
  The enumerators of \<open>ConstraintType\<close> carry the suffix \<open>_C\<close>, since \<open>SUM\<close> is
  notation of HOL. The C++ \<open>int\<close> fields are modelled as \<open>int\<close>, and the arithmetic that
  the solver performs on \<open>int\<close> variables wraps at 32 bits, as it does in the compiled
  program: the result of every such operation goes through \<open>wrap32\<close> (the running total
  of \<open>get_region_sum\<close>, the counter of \<open>choose_cell\<close>, the neighbour coordinates of
  \<open>get_adjacent\<close>). The two conversions between \<open>int\<close> and \<open>size_t\<close> that the solver
  performs are written out as well (\<open>size_t_of_int\<close>, \<open>int_of_size_t\<close>).

  \<open>Cell\<close> is \<open>pair<int,int>\<close>; its \<open>operator<\<close> is the lexicographic order, which is the
  order of \<open>int \<times> int\<close> here (row first, then column).
\<close>

record Domino =
  low :: int
  high :: int

type_synonym Cell = "int \<times> int"

datatype ConstraintType = SUM_C | EQUAL_C | LESS_C | GREATER_C

record Region =
  region_id :: int
  cells :: "Cell list"
  rtype :: ConstraintType
  target_value :: int
  linked_region_id :: int

record PlacedDomino =
  domino :: Domino
  row :: int
  col :: int
  horizontal :: bool

text \<open>
  \<open>map<Cell,int>\<close> is an ordered container: it is modelled by its in-order sequence of
  (key, value) pairs, so that two maps are equal exactly when these sequences are, as
  \<open>operator==\<close> and \<open>operator<\<close> of \<open>std::map\<close> compare them. \<open>find\<close> is \<open>map_of\<close>,
  and \<open>m[k] = v\<close> is \<open>map_assign\<close>.
\<close>

type_synonym CellValues = "(Cell \<times> int) list"

fun map_assign :: "CellValues \<Rightarrow> Cell \<Rightarrow> int \<Rightarrow> CellValues" where
  "map_assign [] k v = [(k, v)]"
| "map_assign ((k', v') # m) k v =
     (if k < k' then (k, v) # (k', v') # m
      else if k = k' then (k, v) # m
      else (k', v') # map_assign m k v)"

record SolverState =
  placed :: "PlacedDomino list"
  used_dominoes :: "Domino set"
  filled_cells :: "Cell set"
  cell_values :: CellValues

text \<open>
  The members of class \<open>Solver\<close> that the constructor sets and the search only reads.
  \<open>all_cells\<close> is a \<open>set<Cell>\<close> that \<open>choose_cell\<close> iterates in order: it is kept as the
  sorted duplicate-free list of its elements. \<open>region_by_id\<close> maps an id to a pointer into
  \<open>regions\<close>; the vector is never changed after construction, so the pointer is modelled
  by the region it points to, and a missing id by \<open>None\<close> (the null pointer that
  \<open>operator[]\<close> inserts).
\<close>

record Solver =
  dominoes :: "Domino list"
  regions :: "Region list"
  rows :: int
  cols :: int
  max_solutions :: int
  cell_to_region :: "Cell \<rightharpoonup> int"
  region_by_id :: "int \<rightharpoonup> Region"
  all_cells :: "Cell list"

text \<open>
  The two members that \<open>backtrack\<close> mutates, threaded through the search as a value.
\<close>

record Found =
  solutions :: "SolverState list"
  seen_signatures :: "CellValues set"

section \<open>Machine integers\<close>

definition INT_MAX :: int where
  "INT_MAX = 2147483647"

definition INT_MIN :: int where
  "INT_MIN = - 2147483648"

definition wrap32 :: "int \<Rightarrow> int" where
  \<comment> \<open>what a 32-bit \<open>int\<close> holds after an operation whose exact result is \<open>x\<close>\<close>
  "wrap32 x = (x + 2 ^ 31) mod 2 ^ 32 - 2 ^ 31"

definition representable :: "int \<Rightarrow> bool" where
  \<comment> \<open>the values of a 32-bit \<open>int\<close>\<close>
  "representable x \<longleftrightarrow> INT_MIN \<le> x \<and> x \<le> INT_MAX"

section \<open>Construction\<close>

definition register_cell :: "Region \<Rightarrow> Cell \<Rightarrow> Solver \<Rightarrow> Solver" where
  "register_cell reg cell s =
     s\<lparr>cell_to_region := (cell_to_region s)(cell \<mapsto> region_id reg),
       all_cells := insort_insert cell (all_cells s)\<rparr>"

definition register_region :: "Region \<Rightarrow> Solver \<Rightarrow> Solver" where
  "register_region reg s =
     (let s' = fold (register_cell reg) (cells reg) s
      in s'\<lparr>region_by_id := (region_by_id s')(region_id reg \<mapsto> reg)\<rparr>)"

definition fix_pointer :: "Region \<Rightarrow> Solver \<Rightarrow> Solver" where
  "fix_pointer reg s = s\<lparr>region_by_id := (region_by_id s)(region_id reg \<mapsto> reg)\<rparr>"

definition mk_Solver :: "Domino list \<Rightarrow> Region list \<Rightarrow> int \<Rightarrow> int \<Rightarrow> int \<Rightarrow> Solver" where
  "mk_Solver doms regs r c max_sol =
     fold fix_pointer regs
       (fold register_region regs
          \<lparr>dominoes = doms, regions = regs, rows = r, cols = c, max_solutions = max_sol,
           cell_to_region = Map.empty, region_by_id = Map.empty, all_cells = []\<rparr>)"

section \<open>Constraint evaluation\<close>

text \<open>
  Every function that goes through \<open>region_by_id[region_id]->cells\<close> dereferences a null
  pointer when the id is not registered. That is the one failure of the solver; it is
  the result \<open>None\<close>.
\<close>

definition cell_value_or_zero :: "CellValues \<Rightarrow> Cell \<Rightarrow> int" where
  "cell_value_or_zero cv cell = (case map_of cv cell of Some v \<Rightarrow> v | None \<Rightarrow> 0)"

definition get_region_sum :: "Solver \<Rightarrow> int \<Rightarrow> CellValues \<Rightarrow> int option" where
  "get_region_sum s rid cv =
     (case region_by_id s rid of
        None \<Rightarrow> None
      | Some reg \<Rightarrow>
          Some (fold (\<lambda>cell tot.
                        case map_of cv cell of Some v \<Rightarrow> wrap32 (tot + v) | None \<Rightarrow> tot)
                     (cells reg) 0))"

definition get_region_values :: "Solver \<Rightarrow> int \<Rightarrow> CellValues \<Rightarrow> int list option" where
  "get_region_values s rid cv =
     (case region_by_id s rid of
        None \<Rightarrow> None
      | Some reg \<Rightarrow>
          Some (fold (\<lambda>cell vals.
                        case map_of cv cell of Some v \<Rightarrow> vals @ [v] | None \<Rightarrow> vals)
                     (cells reg) []))"

definition is_region_complete :: "Solver \<Rightarrow> int \<Rightarrow> Cell set \<Rightarrow> bool option" where
  "is_region_complete s rid filled =
     (case region_by_id s rid of
        None \<Rightarrow> None
      | Some reg \<Rightarrow> Some (list_all (\<lambda>cell. cell \<in> filled) (cells reg)))"

definition check_constraint ::
  "Solver \<Rightarrow> Region \<Rightarrow> CellValues \<Rightarrow> Cell set \<Rightarrow> bool \<Rightarrow> bool option" where
  "check_constraint s region cv filled partial_ok =
     (case is_region_complete s (region_id region) filled of
        None \<Rightarrow> None
      | Some complete \<Rightarrow>
          (case rtype region of
             SUM_C \<Rightarrow>
               (case get_region_sum s (region_id region) cv of
                  None \<Rightarrow> None
                | Some region_sum \<Rightarrow>
                    (if complete then Some (region_sum = target_value region)
                     else Some (partial_ok \<and> region_sum \<le> target_value region)))
           | EQUAL_C \<Rightarrow>
               (case get_region_values s (region_id region) cv of
                  None \<Rightarrow> None
                | Some vals \<Rightarrow>
                    (case vals of
                       [] \<Rightarrow> Some True
                     | first # _ \<Rightarrow> Some (list_all (\<lambda>v. v = first) vals)))
           | LESS_C \<Rightarrow>
               (if \<not> complete then Some partial_ok
                else (case is_region_complete s (linked_region_id region) filled of
                        None \<Rightarrow> None
                      | Some linked_complete \<Rightarrow>
                          (if \<not> linked_complete then Some partial_ok
                           else (case get_region_sum s (region_id region) cv of
                                   None \<Rightarrow> None
                                 | Some my_sum \<Rightarrow>
                                     (case get_region_sum s (linked_region_id region) cv of
                                        None \<Rightarrow> None
                                      | Some their_sum \<Rightarrow> Some (my_sum < their_sum))))))
           | GREATER_C \<Rightarrow>
               (if \<not> complete then Some partial_ok
                else (case is_region_complete s (linked_region_id region) filled of
                        None \<Rightarrow> None
                      | Some linked_complete \<Rightarrow>
                          (if \<not> linked_complete then Some partial_ok
                           else (case get_region_sum s (region_id region) cv of
                                   None \<Rightarrow> None
                                 | Some my_sum \<Rightarrow>
                                     (case get_region_sum s (linked_region_id region) cv of
                                        None \<Rightarrow> None
                                      | Some their_sum \<Rightarrow> Some (my_sum > their_sum))))))))"

section \<open>Cell selection and adjacency\<close>

definition region_of_cell :: "Solver \<Rightarrow> Cell \<Rightarrow> int" where
  \<comment> \<open>\<open>cell_to_region[cell]\<close>: \<open>operator[]\<close> yields the default \<open>0\<close> for a missing key. It
      also inserts that default, which the model leaves out: the solver reads
      \<open>cell_to_region[cell]\<close> only for cells that have a key (those of \<open>all_cells\<close>, and in
      \<open>backtrack\<close> after the two \<open>count\<close> tests).\<close>
  "region_of_cell s cell = (case cell_to_region s cell of Some rid \<Rightarrow> rid | None \<Rightarrow> 0)"

definition count_unfilled :: "Region \<Rightarrow> Cell set \<Rightarrow> int" where
  "count_unfilled reg filled =
     fold (\<lambda>c unfilled. if c \<notin> filled then wrap32 (unfilled + 1) else unfilled)
       (cells reg) 0"

fun choose_cell_loop ::
  "Solver \<Rightarrow> SolverState \<Rightarrow> Cell list \<Rightarrow> Cell \<Rightarrow> int \<Rightarrow> Cell option" where
  "choose_cell_loop s state [] best min_unfilled = Some best"
| "choose_cell_loop s state (cell # rest) best min_unfilled =
     (if cell \<in> filled_cells state then choose_cell_loop s state rest best min_unfilled
      else (case region_by_id s (region_of_cell s cell) of
              None \<Rightarrow> None
            | Some reg \<Rightarrow>
                (let unfilled = count_unfilled reg (filled_cells state)
                 in if unfilled < min_unfilled
                    then choose_cell_loop s state rest cell unfilled
                    else choose_cell_loop s state rest best min_unfilled)))"

definition choose_cell :: "Solver \<Rightarrow> SolverState \<Rightarrow> Cell option" where
  "choose_cell s state = choose_cell_loop s state (all_cells s) (- 1, - 1) INT_MAX"

definition get_adjacent :: "Solver \<Rightarrow> Cell \<Rightarrow> Cell list" where
  "get_adjacent s cell =
     (let r = fst cell; c = snd cell
      in filter (\<lambda>n. n \<in> set (all_cells s))
           [(wrap32 (r - 1), c), (wrap32 (r + 1), c), (r, wrap32 (c - 1)), (r, wrap32 (c + 1))])"

section \<open>Backtracking search\<close>

text \<open>
  A \<open>for\<close> loop whose body may execute \<open>return\<close>: the body yields \<open>Next\<close> when it runs to
  its end (or executes \<open>continue\<close>), \<open>Return\<close> when it leaves the enclosing function, and
  \<open>None\<close> when it dereferences a null pointer.
\<close>

datatype 'a flow = Next 'a | Return 'a

fun for_each :: "'x list \<Rightarrow> ('x \<Rightarrow> 'a \<Rightarrow> 'a flow option) \<Rightarrow> 'a \<Rightarrow> 'a flow option" where
  "for_each [] body a = Some (Next a)"
| "for_each (x # xs) body a =
     (case body x a of
        None \<Rightarrow> None
      | Some (Return a') \<Rightarrow> Some (Return a')
      | Some (Next a') \<Rightarrow> for_each xs body a')"

definition size_t_of_int :: "int \<Rightarrow> nat" where
  \<comment> \<open>the cast \<open>(size_t)max_solutions\<close>, 64 bits\<close>
  "size_t_of_int k = nat (k mod 2 ^ 64)"

definition int_of_size_t :: "nat \<Rightarrow> int" where
  \<comment> \<open>the conversion of \<open>solutions.size()\<close> to the \<open>int\<close> that \<open>solve\<close> returns\<close>
  "int_of_size_t n =
     (let m = int n mod 2 ^ 32 in if m < 2 ^ 31 then m else m - 2 ^ 32)"

fun verify_all :: "Solver \<Rightarrow> Region list \<Rightarrow> CellValues \<Rightarrow> Cell set \<Rightarrow> bool option" where
  "verify_all s [] cv filled = Some True"
| "verify_all s (region # rest) cv filled =
     (case check_constraint s region cv filled False of
        None \<Rightarrow> None
      | Some ok \<Rightarrow> if \<not> ok then Some False else verify_all s rest cv filled)"

definition affected_regions :: "int \<Rightarrow> int \<Rightarrow> int list" where
  \<comment> \<open>the \<open>set<int>\<close> of the two region ids, in its iteration order\<close>
  "affected_regions a b = (if a = b then [a] else if a < b then [a, b] else [b, a])"

fun check_affected :: "Solver \<Rightarrow> int list \<Rightarrow> CellValues \<Rightarrow> Cell set \<Rightarrow> bool option" where
  "check_affected s [] new_values new_filled = Some True"
| "check_affected s (rid # rest) new_values new_filled =
     (case region_by_id s rid of
        None \<Rightarrow> None
      | Some reg \<Rightarrow>
          (case check_constraint s reg new_values new_filled True of
             None \<Rightarrow> None
           | Some ok \<Rightarrow>
               if \<not> ok then Some False else check_affected s rest new_values new_filled))"

definition orientations :: "Domino \<Rightarrow> (int \<times> int) list" where
  "orientations d = (low d, high d) # (if low d \<noteq> high d then [(high d, low d)] else [])"

definition new_state ::
  "SolverState \<Rightarrow> Domino \<Rightarrow> Cell \<Rightarrow> Cell \<Rightarrow> CellValues \<Rightarrow> Cell set \<Rightarrow> SolverState" where
  "new_state state d cell adj new_values new_filled =
     \<lparr>placed = placed state @
        [\<lparr>domino = d, row = min (fst cell) (fst adj), col = min (snd cell) (snd adj),
          horizontal = (fst cell = fst adj)\<rparr>],
      used_dominoes = insert d (used_dominoes state),
      filled_cells = new_filled,
      cell_values = new_values\<rparr>"

definition accept :: "Found \<Rightarrow> SolverState \<Rightarrow> Found" where
  \<comment> \<open>\<open>if (seen_signatures.insert(state.cell_values).second) solutions.push_back(state)\<close>\<close>
  "accept found state =
     (let inserted = cell_values state \<notin> seen_signatures found
      in \<lparr>solutions = (if inserted then solutions found @ [state] else solutions found),
          seen_signatures = insert (cell_values state) (seen_signatures found)\<rparr>)"

definition capped :: "Solver \<Rightarrow> Found \<Rightarrow> bool" where
  \<comment> \<open>\<open>solutions.size() >= (size_t)max_solutions\<close>\<close>
  "capped s found \<longleftrightarrow> length (solutions found) \<ge> size_t_of_int (max_solutions s)"

lemma choose_cell_loop_result:
  "choose_cell_loop s st xs best m = Some cell \<Longrightarrow>
     cell = best \<or> (cell \<in> set xs \<and> cell \<notin> filled_cells st)"
  by (induction xs arbitrary: best m) (auto split: if_splits option.splits simp: Let_def)

lemma choose_cell_unfilled:
  "choose_cell s st = Some cell \<Longrightarrow> \<not> fst cell < 0 \<Longrightarrow>
     cell \<in> set (all_cells s) \<and> cell \<notin> filled_cells st"
  using choose_cell_loop_result [of s st "all_cells s" "(- 1, - 1)" INT_MAX cell]
  by (auto simp: choose_cell_def)

lemma card_fill_two:
  "finite A \<Longrightarrow> cell \<in> A \<Longrightarrow> cell \<notin> F \<Longrightarrow>
     card (A - insert adj (insert cell F)) < card (A - F)"
  by (rule psubset_card_mono) auto

lemma for_each_cong [fundef_cong]:
  "xs = ys \<Longrightarrow> a = b \<Longrightarrow> (\<And>x acc. x \<in> set ys \<Longrightarrow> f x acc = g x acc)
     \<Longrightarrow> for_each xs f a = for_each ys g b"
proof (induction xs arbitrary: ys a b)
  case Nil
  then show ?case by simp
next
  case (Cons x xs)
  then show ?case by (auto split: option.splits flow.splits)
qed

function backtrack :: "Solver \<Rightarrow> Found \<Rightarrow> SolverState \<Rightarrow> Found option" where
  "backtrack s found state =
     (if capped s found then Some found
      else if card (filled_cells state) = length (all_cells s) then
        (case verify_all s (regions s) (cell_values state) (filled_cells state) of
           None \<Rightarrow> None
         | Some ok \<Rightarrow> if \<not> ok then Some found else Some (accept found state))
      else
        (case choose_cell s state of
           None \<Rightarrow> None
         | Some cell \<Rightarrow>
             if fst cell < 0 then Some found
             else
               (case
                  for_each (dominoes s) (\<lambda>d found.
                    if d \<in> used_dominoes state then Some (Next found)
                    else
                      for_each (get_adjacent s cell) (\<lambda>adj found.
                        if adj \<in> filled_cells state then Some (Next found)
                        else if cell_to_region s cell = None \<or> cell_to_region s adj = None
                        then Some (Next found)
                        else
                          for_each (orientations d) (\<lambda>pips found.
                            (let new_values =
                                   map_assign (map_assign (cell_values state) cell (fst pips))
                                     adj (snd pips);
                                 new_filled = insert adj (insert cell (filled_cells state))
                             in case check_affected s
                                       (affected_regions (region_of_cell s cell)
                                          (region_of_cell s adj))
                                       new_values new_filled of
                                  None \<Rightarrow> None
                                | Some valid \<Rightarrow>
                                    if \<not> valid then Some (Next found)
                                    else
                                      (case backtrack s found
                                              (new_state state d cell adj new_values new_filled) of
                                         None \<Rightarrow> None
                                       | Some found' \<Rightarrow>
                                           if capped s found' then Some (Return found')
                                           else Some (Next found'))))
                            found)
                        found)
                    found
                of
                  None \<Rightarrow> None
                | Some (Next found') \<Rightarrow> Some found'
                | Some (Return found') \<Rightarrow> Some found')))"
  by pat_completeness auto

text \<open>
  Every recursive call fills the chosen cell, which is a cell of the grid that was not
  filled: the number of unfilled grid cells decreases, so the search always returns.
\<close>

termination backtrack
proof (relation "measure (\<lambda>(s, found, state). card (set (all_cells s) - filled_cells state))")
  show "wf (measure (\<lambda>(s, found, state). card (set (all_cells s) - filled_cells state)))"
    by simp
next
  fix s :: Solver and found :: Found and state :: SolverState
    and cell d adj pips new_values new_filled valid
    and acc1 acc2 acc3 :: Found
  assume "choose_cell s state = Some cell" "\<not> fst cell < 0"
    and nf: "new_filled = insert adj (insert cell (filled_cells state))"
  then have "cell \<in> set (all_cells s)" "cell \<notin> filled_cells state"
    using choose_cell_unfilled by blast+
  then have "card (set (all_cells s) - new_filled) < card (set (all_cells s) - filled_cells state)"
    unfolding nf by (intro card_fill_two) auto
  then show "((s, acc3, new_state state d cell adj new_values new_filled), s, found, state)
       \<in> measure (\<lambda>(s, found, state). card (set (all_cells s) - filled_cells state))"
    by (simp add: new_state_def)
qed

declare backtrack.simps [simp del]

definition initial :: SolverState where
  "initial = \<lparr>placed = [], used_dominoes = {}, filled_cells = {}, cell_values = []\<rparr>"

definition no_solutions :: Found where
  \<comment> \<open>after \<open>solutions.clear(); seen_signatures.clear()\<close>\<close>
  "no_solutions = \<lparr>solutions = [], seen_signatures = {}\<rparr>"

text \<open>
  \<open>solve\<close> returns the count; the model returns with it the two members it has set, which
  \<open>test_puzzle\<close> reads afterwards.
\<close>

definition solve :: "Solver \<Rightarrow> (int \<times> Found) option" where
  "solve s =
     (case backtrack s no_solutions initial of
        None \<Rightarrow> None
      | Some found \<Rightarrow> Some (int_of_size_t (length (solutions found)), found))"

text \<open>
  \<open>solution_out\<close> is \<open>None\<close> for the null pointer and \<open>Some v\<close> for a pointer to a vector
  that holds \<open>v\<close>; the result carries what the slot holds when \<open>test_puzzle\<close> returns.
  Reading \<open>solutions[0]\<close> of an empty vector is undefined, hence \<open>None\<close>.
\<close>

definition test_puzzle ::
  "Domino list \<Rightarrow> int \<Rightarrow> int \<Rightarrow> Region list \<Rightarrow> PlacedDomino list option
     \<Rightarrow> (int \<times> PlacedDomino list option) option" where
  "test_puzzle doms r c regs solution_out =
     (case solve (mk_Solver doms regs r c 3) of
        None \<Rightarrow> None
      | Some (count, found) \<Rightarrow>
          if count = 1 \<and> solution_out \<noteq> None
          then (case solutions found of
                  [] \<Rightarrow> None
                | first # _ \<Rightarrow> Some (count, Some (placed first)))
          else Some (count, solution_out))"

text \<open>
  The bodies of the three nested loops of \<open>backtrack\<close>, named so that the proofs can
  speak about one loop at a time (\<open>backtrack_unfold\<close> below).
\<close>

definition try_orientation ::
  "Solver \<Rightarrow> SolverState \<Rightarrow> Cell \<Rightarrow> Domino \<Rightarrow> Cell \<Rightarrow> int \<times> int \<Rightarrow> Found
     \<Rightarrow> Found flow option" where
  "try_orientation s state cell d adj pips found =
     (let new_values = map_assign (map_assign (cell_values state) cell (fst pips)) adj (snd pips);
          new_filled = insert adj (insert cell (filled_cells state))
      in case check_affected s
                (affected_regions (region_of_cell s cell) (region_of_cell s adj))
                new_values new_filled of
           None \<Rightarrow> None
         | Some valid \<Rightarrow>
             if \<not> valid then Some (Next found)
             else
               (case backtrack s found (new_state state d cell adj new_values new_filled) of
                  None \<Rightarrow> None
                | Some found' \<Rightarrow>
                    if capped s found' then Some (Return found') else Some (Next found')))"

definition try_adjacent ::
  "Solver \<Rightarrow> SolverState \<Rightarrow> Cell \<Rightarrow> Domino \<Rightarrow> Cell \<Rightarrow> Found \<Rightarrow> Found flow option" where
  "try_adjacent s state cell d adj found =
     (if adj \<in> filled_cells state then Some (Next found)
      else if cell_to_region s cell = None \<or> cell_to_region s adj = None
      then Some (Next found)
      else for_each (orientations d) (try_orientation s state cell d adj) found)"

definition try_domino ::
  "Solver \<Rightarrow> SolverState \<Rightarrow> Cell \<Rightarrow> Domino \<Rightarrow> Found \<Rightarrow> Found flow option" where
  "try_domino s state cell d found =
     (if d \<in> used_dominoes state then Some (Next found)
      else for_each (get_adjacent s cell) (try_adjacent s state cell d) found)"

section \<open>The search tree\<close>

text \<open>
  One step of the search, read off the loops of \<open>backtrack\<close>: from a state that is not
  complete, the chosen cell and a neighbour that is not filled receive the two pips of a
  tile that is not used, in one of its orientations, provided the constraints of the
  regions of the two cells pass in partial mode. The cap plays no part in it.
\<close>

inductive extends :: "Solver \<Rightarrow> SolverState \<Rightarrow> SolverState \<Rightarrow> bool" for s :: Solver where
  place:
    "\<lbrakk>card (filled_cells state) \<noteq> length (all_cells s);
      choose_cell s state = Some cell; \<not> fst cell < 0;
      d \<in> set (dominoes s); d \<notin> used_dominoes state;
      adj \<in> set (get_adjacent s cell); adj \<notin> filled_cells state;
      cell_to_region s cell \<noteq> None; cell_to_region s adj \<noteq> None;
      pips \<in> set (orientations d);
      new_values = map_assign (map_assign (cell_values state) cell (fst pips)) adj (snd pips);
      new_filled = insert adj (insert cell (filled_cells state));
      check_affected s (affected_regions (region_of_cell s cell) (region_of_cell s adj))
        new_values new_filled = Some True\<rbrakk>
     \<Longrightarrow> extends s state (new_state state d cell adj new_values new_filled)"

definition reachable :: "Solver \<Rightarrow> SolverState \<Rightarrow> bool" where
  "reachable s state \<longleftrightarrow> (extends s)\<^sup>*\<^sup>* initial state"

definition accepted :: "Solver \<Rightarrow> SolverState \<Rightarrow> bool" where
  \<comment> \<open>a complete state that passes every region in strict mode\<close>
  "accepted s state \<longleftrightarrow>
     card (filled_cells state) = length (all_cells s) \<and>
     verify_all s (regions s) (cell_values state) (filled_cells state) = Some True"

definition accepted_below :: "Solver \<Rightarrow> SolverState \<Rightarrow> SolverState set" where
  "accepted_below s state = {state'. (extends s)\<^sup>*\<^sup>* state state' \<and> accepted s state'}"

definition true_solutions :: "Solver \<Rightarrow> CellValues set" where
  \<comment> \<open>the distinct signatures of the accepted states of the whole search tree\<close>
  "true_solutions s = cell_values ` accepted_below s initial"

definition signature_invariant :: "Found \<Rightarrow> bool" where
  "signature_invariant found \<longleftrightarrow>
     distinct (map cell_values (solutions found)) \<and>
     seen_signatures found = set (map cell_values (solutions found))"

definition state_invariant :: "SolverState \<Rightarrow> bool" where
  "state_invariant state \<longleftrightarrow>
     used_dominoes state = set (map domino (placed state)) \<and>
     distinct (map domino (placed state)) \<and>
     filled_cells state = set (map fst (cell_values state)) \<and>
     sorted_wrt (<) (map fst (cell_values state)) \<and>
     card (filled_cells state) = 2 * length (placed state)"

section \<open>Notions of the specification\<close>

definition region_total :: "CellValues \<Rightarrow> Region \<Rightarrow> int" where
  \<comment> \<open>the sum of the values that the member cells of a region hold\<close>
  "region_total cv reg = (\<Sum>c\<leftarrow>cells reg. cell_value_or_zero cv c)"

definition filled_total :: "CellValues \<Rightarrow> Cell set \<Rightarrow> Region \<Rightarrow> int" where
  \<comment> \<open>the partial sum: the values of the filled member cells\<close>
  "filled_total cv filled reg =
     (\<Sum>c\<leftarrow>filter (\<lambda>c. c \<in> filled) (cells reg). cell_value_or_zero cv c)"

definition owner_unfilled :: "Solver \<Rightarrow> SolverState \<Rightarrow> Cell \<Rightarrow> nat" where
  \<comment> \<open>the number of unfilled member cells of the region that owns a cell\<close>
  "owner_unfilled s st c =
     (case region_by_id s (region_of_cell s c) of
        None \<Rightarrow> 0
      | Some reg \<Rightarrow> length (filter (\<lambda>x. x \<notin> filled_cells st) (cells reg)))"

definition solution_count :: "Domino list \<Rightarrow> Region list \<Rightarrow> nat" where
  \<comment> \<open>the true number of distinct solutions of a configuration: the cap and the grid
      dimensions play no part in the search tree (\<open>same_true_solutions\<close> below)\<close>
  "solution_count doms regs = card (true_solutions (mk_Solver doms regs 0 0 0))"

definition links_exist :: "Region list \<Rightarrow> bool" where
  \<comment> \<open>every LESS or GREATER region names a region of the list\<close>
  "links_exist regs \<longleftrightarrow>
     (\<forall>reg\<in>set regs. rtype reg = LESS_C \<or> rtype reg = GREATER_C \<longrightarrow>
        linked_region_id reg \<in> region_id ` set regs)"

definition grid_cells :: "int \<Rightarrow> int \<Rightarrow> Cell set" where
  "grid_cells r c = {0..<r} \<times> {0..<c}"

definition malformed :: "Region list \<Rightarrow> int \<Rightarrow> int \<Rightarrow> bool" where
  \<comment> \<open>a cell of the grid in no region, a link to no region, or a cell outside the grid\<close>
  "malformed regs r c \<longleftrightarrow>
     (\<exists>cell\<in>grid_cells r c. \<forall>reg\<in>set regs. cell \<notin> set (cells reg)) \<or>
     \<not> links_exist regs \<or>
     (\<exists>reg\<in>set regs. \<exists>cell\<in>set (cells reg). cell \<notin> grid_cells r c)"

definition indexed :: "Region list \<Rightarrow> Solver \<Rightarrow> bool" where
  \<comment> \<open>what the constructor establishes about the three indexes\<close>
  "indexed regs s \<longleftrightarrow>
     sorted (all_cells s) \<and> distinct (all_cells s) \<and>
     set (all_cells s) = (\<Union>reg\<in>set regs. set (cells reg)) \<and>
     dom (cell_to_region s) = set (all_cells s) \<and>
     (\<forall>c i. cell_to_region s c = Some i \<longrightarrow> region_by_id s i \<noteq> None) \<and>
     (\<forall>i reg. region_by_id s i = Some reg \<longrightarrow> reg \<in> set regs \<and> region_id reg = i) \<and>
     (\<forall>reg\<in>set regs. region_by_id s (region_id reg) \<noteq> None)"

definition sound :: "Solver \<Rightarrow> bool" where
  \<comment> \<open>the indexes are those of the constructor and every link names a region\<close>
  "sound s \<longleftrightarrow> indexed (regions s) s \<and> links_exist (regions s)"

definition same_indexes :: "Solver \<Rightarrow> Solver \<Rightarrow> bool" where
  \<comment> \<open>two solvers that differ at most in the grid dimensions and the cap\<close>
  "same_indexes s s' \<longleftrightarrow>
     dominoes s = dominoes s' \<and> regions s = regions s' \<and>
     cell_to_region s = cell_to_region s' \<and> region_by_id s = region_by_id s' \<and>
     all_cells s = all_cells s'"

section \<open>Solutions as tilings\<close>

text \<open>
  What a solution of a puzzle is, said without the search: every cell of the grid is
  covered by exactly one piece, a piece is a tile of the tile list on two neighbouring
  cells in one of its orientations, no tile is used twice, and every region passes in
  strict mode. A layout is the cell-value map of such a tiling.
\<close>

record Piece =
  piece_tile :: Domino
  cell_a :: Cell
  cell_b :: Cell
  pip_a :: int
  pip_b :: int

definition adjacent :: "Cell \<Rightarrow> Cell \<Rightarrow> bool" where
  "adjacent a b \<longleftrightarrow>
     b = (fst a - 1, snd a) \<or> b = (fst a + 1, snd a) \<or>
     b = (fst a, snd a - 1) \<or> b = (fst a, snd a + 1)"

definition piece_cells :: "Piece \<Rightarrow> Cell set" where
  "piece_cells p = {cell_a p, cell_b p}"

definition tiling :: "Solver \<Rightarrow> Piece set \<Rightarrow> (Cell \<rightharpoonup> int) \<Rightarrow> bool" where
  "tiling s P V \<longleftrightarrow>
     finite P \<and> inj_on piece_tile P \<and> piece_tile ` P \<subseteq> set (dominoes s) \<and>
     (\<forall>p\<in>P. adjacent (cell_a p) (cell_b p) \<and>
        (pip_a p, pip_b p) \<in> set (orientations (piece_tile p)) \<and>
        V (cell_a p) = Some (pip_a p) \<and> V (cell_b p) = Some (pip_b p)) \<and>
     (\<forall>p\<in>P. \<forall>q\<in>P. p \<noteq> q \<longrightarrow> piece_cells p \<inter> piece_cells q = {}) \<and>
     (\<Union>p\<in>P. piece_cells p) = set (all_cells s) \<and>
     dom V = set (all_cells s)"

definition valid_layout :: "Solver \<Rightarrow> CellValues \<Rightarrow> bool" where
  "valid_layout s cv \<longleftrightarrow>
     sorted_wrt (<) (map fst cv) \<and>
     (\<exists>P. tiling s P (map_of cv)) \<and>
     verify_all s (regions s) cv (set (all_cells s)) = Some True"

definition conforming :: "Solver \<Rightarrow> bool" where
  \<comment> \<open>sound, with the pips and the coordinates of the data model (none negative, all
      values of an \<open>int\<close>), regions of fewer than \<open>INT_MAX\<close> cells, and pips so small
      that a region filled with any one of them sums to at most \<open>INT_MAX\<close>\<close>
  "conforming s \<longleftrightarrow>
     sound s \<and>
     (\<forall>d\<in>set (dominoes s). 0 \<le> low d \<and> 0 \<le> high d) \<and>
     (\<forall>c\<in>set (all_cells s). 0 \<le> fst c \<and> fst c \<le> INT_MAX \<and> 0 \<le> snd c \<and> snd c \<le> INT_MAX) \<and>
     (\<forall>reg\<in>set (regions s). int (length (cells reg)) < INT_MAX) \<and>
     (\<forall>reg\<in>set (regions s). \<forall>d\<in>set (dominoes s).
        int (length (cells reg)) * low d \<le> INT_MAX \<and>
        int (length (cells reg)) * high d \<le> INT_MAX)"

definition well_formed :: "Domino list \<Rightarrow> Region list \<Rightarrow> bool" where
  \<comment> \<open>the same conditions on the arguments of the constructor\<close>
  "well_formed doms regs \<longleftrightarrow>
     links_exist regs \<and>
     (\<forall>d\<in>set doms. 0 \<le> low d \<and> 0 \<le> high d) \<and>
     (\<forall>reg\<in>set regs. \<forall>c\<in>set (cells reg).
        0 \<le> fst c \<and> fst c \<le> INT_MAX \<and> 0 \<le> snd c \<and> snd c \<le> INT_MAX) \<and>
     (\<forall>reg\<in>set regs. int (length (cells reg)) < INT_MAX) \<and>
     (\<forall>reg\<in>set regs. \<forall>d\<in>set doms.
        int (length (cells reg)) * low d \<le> INT_MAX \<and>
        int (length (cells reg)) * high d \<le> INT_MAX)"

section \<open>Exclusion filtering\<close>

fun found_in :: "Domino \<Rightarrow> Domino list \<Rightarrow> bool" where
  "found_in d [] = False"
| "found_in d (e # es) = (if low d = low e \<and> high d = high e then True else found_in d es)"

fun exclude_dominoes :: "Domino list \<Rightarrow> Domino list \<Rightarrow> Domino list" where
  "exclude_dominoes [] exclude = []"
| "exclude_dominoes (d # pool) exclude =
     (if found_in d exclude then exclude_dominoes pool exclude
      else d # exclude_dominoes pool exclude)"

section \<open>Auxiliary notions of the proofs\<close>

definition post :: "Solver \<Rightarrow> SolverState set \<Rightarrow> Found \<Rightarrow> Found \<Rightarrow> bool" where
  "post s T a a' \<longleftrightarrow>
     signature_invariant a' \<and>
     set (solutions a) \<subseteq> set (solutions a') \<and>
     set (solutions a') \<subseteq> set (solutions a) \<union> T \<and>
     (\<not> capped s a' \<longrightarrow> seen_signatures a' = seen_signatures a \<union> cell_values ` T) \<and>
     length (solutions a') \<le> size_t_of_int (max_solutions s)"

definition flow_post :: "Solver \<Rightarrow> SolverState set \<Rightarrow> Found \<Rightarrow> Found flow \<Rightarrow> bool" where
  "flow_post s T a r \<longleftrightarrow>
     (case r of
        Next a' \<Rightarrow> post s T a a' \<and> \<not> capped s a'
      | Return a' \<Rightarrow> post s T a a' \<and> capped s a')"

definition below_orientation ::
  "Solver \<Rightarrow> SolverState \<Rightarrow> Cell \<Rightarrow> Domino \<Rightarrow> Cell \<Rightarrow> int \<times> int \<Rightarrow> SolverState set" where
  "below_orientation s state cell d adj pips =
     (let new_values = map_assign (map_assign (cell_values state) cell (fst pips)) adj (snd pips);
          new_filled = insert adj (insert cell (filled_cells state))
      in if check_affected s
              (affected_regions (region_of_cell s cell) (region_of_cell s adj))
              new_values new_filled = Some True
         then accepted_below s (new_state state d cell adj new_values new_filled)
         else {})"

definition below_adjacent ::
  "Solver \<Rightarrow> SolverState \<Rightarrow> Cell \<Rightarrow> Domino \<Rightarrow> Cell \<Rightarrow> SolverState set" where
  "below_adjacent s state cell d adj =
     (if adj \<in> filled_cells state \<or> cell_to_region s cell = None \<or> cell_to_region s adj = None
      then {}
      else (\<Union>pips\<in>set (orientations d). below_orientation s state cell d adj pips))"

definition below_domino :: "Solver \<Rightarrow> SolverState \<Rightarrow> Cell \<Rightarrow> Domino \<Rightarrow> SolverState set" where
  "below_domino s state cell d =
     (if d \<in> used_dominoes state then {}
      else (\<Union>adj\<in>set (get_adjacent s cell). below_adjacent s state cell d adj))"

definition laid :: "Solver \<Rightarrow> SolverState \<Rightarrow> Piece set \<Rightarrow> bool" where
  "laid s st P \<longleftrightarrow>
     finite P \<and> inj_on piece_tile P \<and> piece_tile ` P = used_dominoes st \<and>
     used_dominoes st \<subseteq> set (dominoes s) \<and>
     (\<forall>p\<in>P. adjacent (cell_a p) (cell_b p) \<and>
        (pip_a p, pip_b p) \<in> set (orientations (piece_tile p)) \<and>
        map_of (cell_values st) (cell_a p) = Some (pip_a p) \<and>
        map_of (cell_values st) (cell_b p) = Some (pip_b p)) \<and>
     (\<forall>p\<in>P. \<forall>q\<in>P. p \<noteq> q \<longrightarrow> piece_cells p \<inter> piece_cells q = {}) \<and>
     (\<Union>p\<in>P. piece_cells p) = filled_cells st \<and>
     filled_cells st \<subseteq> set (all_cells s) \<and>
     dom (map_of (cell_values st)) = filled_cells st \<and>
     sorted_wrt (<) (map fst (cell_values st))"

definition agrees :: "Piece set \<Rightarrow> (Cell \<rightharpoonup> int) \<Rightarrow> SolverState \<Rightarrow> Piece set \<Rightarrow> bool" where
  "agrees P V st S \<longleftrightarrow>
     S \<subseteq> P \<and> filled_cells st = (\<Union>p\<in>S. piece_cells p) \<and>
     used_dominoes st = piece_tile ` S \<and>
     (\<forall>c. map_of (cell_values st) c = (if c \<in> filled_cells st then V c else None)) \<and>
     sorted_wrt (<) (map fst (cell_values st))"

definition region_values :: "CellValues \<Rightarrow> Region \<Rightarrow> int list" where
  "region_values cv reg =
     concat (map (\<lambda>c. case map_of cv c of Some v \<Rightarrow> [v] | None \<Rightarrow> []) (cells reg))"

section \<open>Example configurations\<close>

text \<open>
  A 2 by 2 grid: the top row is a LESS region linked to the bottom row, which is a SUM
  region with target 5; the tiles are [0|1] and [2|3].
\<close>

definition ex_dominoes :: "Domino list" where
  "ex_dominoes = [\<lparr>low = 0, high = 1\<rparr>, \<lparr>low = 2, high = 3\<rparr>]"

definition ex_top :: Region where
  "ex_top = \<lparr>region_id = 0, cells = [(0, 0), (0, 1)], rtype = LESS_C, target_value = - 1,
     linked_region_id = 1\<rparr>"

definition ex_bottom :: Region where
  "ex_bottom = \<lparr>region_id = 1, cells = [(1, 0), (1, 1)], rtype = SUM_C, target_value = 5,
     linked_region_id = - 1\<rparr>"

definition ex_solver :: "int \<Rightarrow> Solver" where
  "ex_solver k = mk_Solver ex_dominoes [ex_top, ex_bottom] 2 2 k"

definition ex_full :: CellValues where
  "ex_full = [((0, 0), 1), ((0, 1), 0), ((1, 0), 2), ((1, 1), 3)]"

definition ex_half :: SolverState where
  "ex_half = \<lparr>placed = [\<lparr>domino = \<lparr>low = 2, high = 3\<rparr>, row = 1, col = 0, horizontal = True\<rparr>],
     used_dominoes = {\<lparr>low = 2, high = 3\<rparr>}, filled_cells = {(1, 0), (1, 1)},
     cell_values = [((1, 0), 2), ((1, 1), 3)]\<rparr>"

text \<open>
  A 2 by 3 grid of two regions of three cells each, for the cell selection.
\<close>

definition ex_regs :: "Region list" where
  "ex_regs =
     [\<lparr>region_id = 0, cells = [(0, 0), (0, 1), (1, 0)], rtype = SUM_C, target_value = 3,
       linked_region_id = - 1\<rparr>,
      \<lparr>region_id = 1, cells = [(1, 1), (1, 2), (0, 2)], rtype = EQUAL_C, target_value = - 1,
       linked_region_id = - 1\<rparr>]"

definition ex_state :: SolverState where
  "ex_state = \<lparr>placed = [], used_dominoes = {}, filled_cells = {(0, 0), (0, 1)},
     cell_values = [((0, 0), 1), ((0, 1), 2)]\<rparr>"

text \<open>
  A 2 by 2 grid that is one SUM region with target 4, and the tiles [0|1] and [1|2]: the
  two tiles laid as rows or as columns give the same values in the four cells.
\<close>

definition dd_dominoes :: "Domino list" where
  "dd_dominoes = [\<lparr>low = 0, high = 1\<rparr>, \<lparr>low = 1, high = 2\<rparr>]"

definition dd_regions :: "Region list" where
  "dd_regions = [\<lparr>region_id = 0, cells = [(0, 0), (0, 1), (1, 0), (1, 1)], rtype = SUM_C,
     target_value = 4, linked_region_id = - 1\<rparr>]"

definition dd_solver :: Solver where
  "dd_solver = mk_Solver dd_dominoes dd_regions 2 2 100"

definition dd_rows :: SolverState where
  "dd_rows =
     \<lparr>placed = [\<lparr>domino = \<lparr>low = 0, high = 1\<rparr>, row = 0, col = 0, horizontal = True\<rparr>,
                \<lparr>domino = \<lparr>low = 1, high = 2\<rparr>, row = 1, col = 0, horizontal = True\<rparr>],
      used_dominoes = {\<lparr>low = 0, high = 1\<rparr>, \<lparr>low = 1, high = 2\<rparr>},
      filled_cells = {(0, 0), (0, 1), (1, 0), (1, 1)},
      cell_values = [((0, 0), 0), ((0, 1), 1), ((1, 0), 1), ((1, 1), 2)]\<rparr>"

text \<open>
  A 1 by 2 grid with the tile [3|3] and the target 6: one solution.
\<close>

definition one_dominoes :: "Domino list" where
  "one_dominoes = [\<lparr>low = 3, high = 3\<rparr>]"

definition one_regions :: "Region list" where
  "one_regions = [\<lparr>region_id = 0, cells = [(0, 0), (0, 1)], rtype = SUM_C,
     target_value = 6, linked_region_id = - 1\<rparr>]"

text \<open>
  The first state below the root in the search of the first example: the tile [0|1] on
  the top row.
\<close>

definition ex_first :: SolverState where
  "ex_first = new_state initial \<lparr>low = 0, high = 1\<rparr> (0, 0) (0, 1)
     [((0, 0), 0), ((0, 1), 1)] {(0, 1), (0, 0)}"

section \<open>Arithmetic at 32 bits\<close>

lemma wrap32_representable: "representable x \<Longrightarrow> wrap32 x = x"
  by (simp add: wrap32_def representable_def INT_MIN_def INT_MAX_def)

lemma representable_wrap32: "representable (wrap32 x)"
proof -
  have "0 \<le> (x + 2 ^ 31) mod (2 ^ 32 :: int)" "(x + 2 ^ 31) mod (2 ^ 32 :: int) < 2 ^ 32"
    by simp_all
  then show ?thesis
    by (simp add: wrap32_def representable_def INT_MIN_def INT_MAX_def)
qed

lemma wrap32_add_left: "wrap32 (wrap32 x + y) = wrap32 (x + y)"
proof -
  have a: "wrap32 x + y + 2 ^ 31 = (x + 2 ^ 31) mod 2 ^ 32 + y"
    by (simp add: wrap32_def)
  have c: "x + 2 ^ 31 + y = x + y + (2 ^ 31 :: int)" by simp
  have "wrap32 (wrap32 x + y) = (wrap32 x + y + 2 ^ 31) mod 2 ^ 32 - 2 ^ 31"
    by (rule wrap32_def)
  also have "\<dots> = ((x + 2 ^ 31) mod 2 ^ 32 + y) mod 2 ^ 32 - 2 ^ 31"
    by (simp only: a)
  also have "\<dots> = (x + 2 ^ 31 + y) mod 2 ^ 32 - 2 ^ 31"
    by (simp only: mod_add_left_eq)
  also have "\<dots> = (x + y + 2 ^ 31) mod 2 ^ 32 - 2 ^ 31"
    by (simp only: c)
  also have "\<dots> = wrap32 (x + y)"
    by (rule wrap32_def [symmetric])
  finally show ?thesis .
qed

lemma wrap32_succ_ne: "wrap32 (x + 1) \<noteq> x"
proof
  assume eq: "wrap32 (x + 1) = x"
  define z where "z = x + 2 ^ 31"
  have m: "(z + 1) mod 2 ^ 32 = z"
    using eq by (simp add: wrap32_def z_def add.commute add.left_commute)
  have "0 \<le> (z + 1) mod (2 ^ 32 :: int)" "(z + 1) mod (2 ^ 32 :: int) < 2 ^ 32"
    by simp_all
  with m have r: "0 \<le> z" "z < 2 ^ 32" by simp_all
  show False
  proof (cases "z + 1 < 2 ^ 32")
    case True
    with r have "(z + 1) mod 2 ^ 32 = z + 1" by simp
    with m show False by simp
  next
    case False
    with r have "z + 1 = 2 ^ 32" by simp
    then have "(z + 1) mod 2 ^ 32 = 0" by simp
    with m have "z = 0" by simp
    with \<open>z + 1 = 2 ^ 32\<close> show False by simp
  qed
qed

lemma wrap32_pred_ne: "wrap32 (x - 1) \<noteq> x"
proof
  assume eq: "wrap32 (x - 1) = x"
  define z where "z = x + 2 ^ 31"
  have "x - 1 + 2 ^ 31 = z - 1" by (simp add: z_def)
  with eq have m: "(z - 1) mod 2 ^ 32 = z"
    by (simp add: wrap32_def z_def)
  have "0 \<le> (z - 1) mod (2 ^ 32 :: int)" "(z - 1) mod (2 ^ 32 :: int) < 2 ^ 32"
    by simp_all
  with m have r: "0 \<le> z" "z < 2 ^ 32" by simp_all
  show False
  proof (cases "1 \<le> z")
    case True
    with r have "(z - 1) mod 2 ^ 32 = z - 1" by simp
    with m show False by simp
  next
    case False
    with r have z: "z = 0" by simp
    have "(- 1 :: int) mod 2 ^ 32 = 2 ^ 32 - 1" by simp
    with m z show False by simp
  qed
qed

lemma get_adjacent_cells:
  "adj \<in> set (get_adjacent s cell) \<Longrightarrow> adj \<in> set (all_cells s) \<and> adj \<noteq> cell"
  using wrap32_succ_ne [of "fst cell"] wrap32_pred_ne [of "fst cell"]
    wrap32_succ_ne [of "snd cell"] wrap32_pred_ne [of "snd cell"]
  by (cases cell) (auto simp: get_adjacent_def Let_def split: if_splits)

lemma sum_list_le_length:
  fixes f :: "'a \<Rightarrow> int"
  shows "(\<And>x. x \<in> set xs \<Longrightarrow> f x \<le> m) \<Longrightarrow> (\<Sum>x\<leftarrow>xs. f x) \<le> int (length xs) * m"
proof (induction xs)
  case Nil
  then show ?case by simp
next
  case (Cons x xs)
  then have "f x \<le> m" "(\<Sum>x\<leftarrow>xs. f x) \<le> int (length xs) * m" by simp_all
  then show ?case by (simp add: algebra_simps)
qed

lemma sum_list_bounded:
  fixes f :: "'a \<Rightarrow> int"
  assumes "\<And>x. x \<in> set xs \<Longrightarrow> int (length xs) * f x \<le> B" and "0 \<le> B"
  shows "(\<Sum>x\<leftarrow>xs. f x) \<le> B"
proof (cases "xs = []")
  case True
  with assms(2) show ?thesis by simp
next
  case False
  then have "f ` set xs \<noteq> {}" "finite (f ` set xs)" by simp_all
  then have "Max (f ` set xs) \<in> f ` set xs" by (rule_tac Max_in)
  then obtain x0 where x0: "x0 \<in> set xs" "f x0 = Max (f ` set xs)" by auto
  have "f x \<le> f x0" if "x \<in> set xs" for x
    using that x0(2) by simp
  then have "(\<Sum>x\<leftarrow>xs. f x) \<le> int (length xs) * f x0" by (rule sum_list_le_length)
  also have "\<dots> \<le> B" using assms(1) x0(1) by simp
  finally show ?thesis .
qed

lemma sum_list_nonneg_int:
  fixes f :: "'a \<Rightarrow> int"
  shows "(\<And>x. x \<in> set xs \<Longrightarrow> 0 \<le> f x) \<Longrightarrow> 0 \<le> (\<Sum>x\<leftarrow>xs. f x)"
  by (induction xs) simp_all

section \<open>What the constructor establishes\<close>

lemma fold_register_cell_all_cells:
  "all_cells (fold (register_cell reg) cs s) = fold insort_insert cs (all_cells s)"
  by (induction cs arbitrary: s) (simp_all add: register_cell_def)

lemma fold_register_cell_region_by_id:
  "region_by_id (fold (register_cell reg) cs s) = region_by_id s"
  by (induction cs arbitrary: s) (simp_all add: register_cell_def)

lemma fold_register_cell_cell_to_region:
  "cell_to_region (fold (register_cell reg) cs s) c =
     (if c \<in> set cs then Some (region_id reg) else cell_to_region s c)"
  by (induction cs arbitrary: s) (simp_all add: register_cell_def)

lemma fold_register_cell_config:
  "dominoes (fold (register_cell reg) cs s) = dominoes s \<and>
   regions (fold (register_cell reg) cs s) = regions s \<and>
   max_solutions (fold (register_cell reg) cs s) = max_solutions s"
  by (induction cs arbitrary: s) (simp_all add: register_cell_def)

lemma fold_insort_insert_set: "set (fold insort_insert cs xs) = set xs \<union> set cs"
  by (induction cs arbitrary: xs) (auto simp: set_insort_insert)

lemma fold_insort_insert_sorted:
  "sorted xs \<Longrightarrow> distinct xs \<Longrightarrow>
     sorted (fold insort_insert cs xs) \<and> distinct (fold insort_insert cs xs)"
  by (induction cs arbitrary: xs) (simp_all add: sorted_insort_insert distinct_insort_insert)


lemma indexed_register_region:
  assumes "indexed regs s"
  shows "indexed (regs @ [reg]) (register_region reg s)"
  using assms
  unfolding indexed_def register_region_def Let_def
  by (simp add: fold_register_cell_all_cells fold_register_cell_region_by_id
      fold_register_cell_cell_to_region fold_insort_insert_set fold_insort_insert_sorted
      Un_commute dom_def)
    (auto)

lemma indexed_fold_register_region:
  "indexed pre s \<Longrightarrow> indexed (pre @ regs) (fold register_region regs s)"
proof (induction regs arbitrary: pre s)
  case Nil
  then show ?case by simp
next
  case (Cons reg regs)
  from Cons.IH [OF indexed_register_region [OF Cons.prems, of reg]]
  show ?case by simp
qed

lemma indexed_fix_pointer:
  "indexed regs s \<Longrightarrow> reg \<in> set regs \<Longrightarrow> indexed regs (fix_pointer reg s)"
  unfolding indexed_def fix_pointer_def by simp

lemma indexed_fold_fix_pointer:
  "indexed regs s \<Longrightarrow> set rs \<subseteq> set regs \<Longrightarrow> indexed regs (fold fix_pointer rs s)"
  by (induction rs arbitrary: s) (simp_all add: indexed_fix_pointer)

lemma indexed_mk_Solver: "indexed regs (mk_Solver doms regs r c k)"
proof -
  have "indexed [] \<lparr>dominoes = doms, regions = regs, rows = r, cols = c, max_solutions = k,
           cell_to_region = Map.empty, region_by_id = Map.empty, all_cells = []\<rparr>"
    by (simp add: indexed_def)
  from indexed_fold_register_region [OF this, of regs]
  show ?thesis
    unfolding mk_Solver_def by (intro indexed_fold_fix_pointer) simp_all
qed


lemma indexed_owner:
  assumes "indexed regs s" and "c \<in> set (all_cells s)"
  shows "\<exists>reg\<in>set regs. region_by_id s (region_of_cell s c) = Some reg"
proof -
  from assms obtain i where i: "cell_to_region s c = Some i"
    unfolding indexed_def by blast
  with assms(1) obtain reg where "region_by_id s i = Some reg"
    unfolding indexed_def by blast
  moreover with assms(1) have "reg \<in> set regs"
    unfolding indexed_def by blast
  ultimately show ?thesis using i by (simp add: region_of_cell_def)
qed

text \<open>
  When the ids of the regions are pairwise different, every region of the list is
  registered under its own id.
\<close>

lemma fold_register_region_other:
  "i \<notin> region_id ` set regs \<Longrightarrow>
     region_by_id (fold register_region regs s) i = region_by_id s i"
  by (induction regs arbitrary: s)
    (simp_all add: register_region_def Let_def fold_register_cell_region_by_id)

lemma fold_register_region_registered:
  "distinct (map region_id regs) \<Longrightarrow> reg \<in> set regs \<Longrightarrow>
     region_by_id (fold register_region regs s) (region_id reg) = Some reg"
proof (induction regs arbitrary: s)
  case Nil
  then show ?case by simp
next
  case (Cons x xs)
  show ?case
  proof (cases "reg = x")
    case True
    with Cons.prems(1) have "region_id x \<notin> region_id ` set xs" by auto
    then have "region_by_id (fold register_region xs (register_region x s)) (region_id x) =
        region_by_id (register_region x s) (region_id x)"
      by (rule fold_register_region_other)
    also have "\<dots> = Some x" by (simp add: register_region_def Let_def)
    finally show ?thesis using True by simp
  next
    case False
    with Cons show ?thesis by simp
  qed
qed

lemma fold_fix_pointer_other:
  "i \<notin> region_id ` set regs \<Longrightarrow> region_by_id (fold fix_pointer regs s) i = region_by_id s i"
  by (induction regs arbitrary: s) (simp_all add: fix_pointer_def)

lemma fold_fix_pointer_registered:
  "distinct (map region_id regs) \<Longrightarrow> reg \<in> set regs \<Longrightarrow>
     region_by_id (fold fix_pointer regs s) (region_id reg) = Some reg"
proof (induction regs arbitrary: s)
  case Nil
  then show ?case by simp
next
  case (Cons x xs)
  show ?case
  proof (cases "reg = x")
    case True
    with Cons.prems(1) have "region_id x \<notin> region_id ` set xs" by auto
    then have "region_by_id (fold fix_pointer xs (fix_pointer x s)) (region_id x) =
        region_by_id (fix_pointer x s) (region_id x)"
      by (rule fold_fix_pointer_other)
    also have "\<dots> = Some x" by (simp add: fix_pointer_def)
    finally show ?thesis using True by simp
  next
    case False
    with Cons show ?thesis by simp
  qed
qed

lemma mk_Solver_registered:
  "distinct (map region_id regs) \<Longrightarrow> reg \<in> set regs \<Longrightarrow>
     region_by_id (mk_Solver doms regs r c k) (region_id reg) = Some reg"
  unfolding mk_Solver_def by (rule fold_fix_pointer_registered)

section \<open>The constraint evaluator\<close>

lemma fold_region_sum:
  "wrap32 a = a \<Longrightarrow>
   fold (\<lambda>cell tot. case map_of cv cell of Some v \<Rightarrow> wrap32 (tot + v) | None \<Rightarrow> tot) xs a =
     wrap32 (a + (\<Sum>c\<leftarrow>xs. cell_value_or_zero cv c))"
proof (induction xs arbitrary: a)
  case Nil
  then show ?case by simp
next
  case (Cons x xs)
  show ?case
  proof (cases "map_of cv x")
    case None
    with Cons show ?thesis by (simp add: cell_value_or_zero_def)
  next
    case (Some v)
    have "wrap32 (wrap32 (a + v)) = wrap32 (a + v)"
      by (rule wrap32_representable) (rule representable_wrap32)
    from Cons.IH [OF this] Some show ?thesis
      by (simp add: cell_value_or_zero_def wrap32_add_left add.assoc)
  qed
qed

lemma get_region_sum_registered:
  assumes "region_by_id s rid = Some reg"
  shows "get_region_sum s rid cv = Some (wrap32 (region_total cv reg))"
proof -
  have "wrap32 0 = 0" by (simp add: wrap32_def)
  with assms show ?thesis
    by (simp add: get_region_sum_def fold_region_sum region_total_def)
qed

lemma get_region_sum_representable:
  "region_by_id s rid = Some reg \<Longrightarrow> representable (region_total cv reg) \<Longrightarrow>
     get_region_sum s rid cv = Some (region_total cv reg)"
  by (simp add: get_region_sum_registered wrap32_representable)

lemma is_region_complete_registered:
  "region_by_id s rid = Some reg \<Longrightarrow>
     is_region_complete s rid filled = Some (set (cells reg) \<subseteq> filled)"
  by (auto simp: is_region_complete_def list_all_iff)

lemma filled_total_eq:
  "dom (map_of cv) = filled \<Longrightarrow> filled_total cv filled reg = region_total cv reg"
proof -
  assume d: "dom (map_of cv) = filled"
  have "(\<Sum>c\<leftarrow>filter (\<lambda>c. c \<in> filled) xs. cell_value_or_zero cv c) =
        (\<Sum>c\<leftarrow>xs. cell_value_or_zero cv c)" for xs
  proof (induction xs)
    case Nil
    then show ?case by simp
  next
    case (Cons x xs)
    then show ?case using d by (auto simp: cell_value_or_zero_def split: option.splits)
  qed
  then show ?thesis by (simp add: filled_total_def region_total_def)
qed

text \<open>
  At 32 bits the total of \<open>get_region_sum\<close> is the sum of the values reduced into the
  range of \<open>int\<close>: two cells that hold \<open>2 ^ 30\<close> each total \<open>INT_MIN\<close>, and a LESS region
  of these two cells passes against a linked region that sums to 5. The statements about
  sums below are therefore made for sums that an \<open>int\<close> can hold.
\<close>

lemma get_region_sum_wraps:
  "get_region_sum (ex_solver 3) 1 [((1, 0), 2 ^ 30), ((1, 1), 2 ^ 30)] = Some INT_MIN"
  by code_simp

lemma check_constraint_wraps:
  "check_constraint (ex_solver 3) ex_top
     [((0, 0), 2 ^ 30), ((0, 1), 2 ^ 30), ((1, 0), 2), ((1, 1), 3)]
     {(0, 0), (0, 1), (1, 0), (1, 1)} False = Some True"
  by code_simp

text \<open>
  C2. For a SUM region that the solver has registered under its id, and cell values
  whose sum over the member cells is a value of \<open>int\<close>: when every member
  cell is filled, the check returns true exactly when the sum of the member cell values
  equals the target; when some member cell is unfilled, it returns true exactly when
  \<open>partial_ok\<close> holds and the partial sum does not exceed the target. The sum that the code
  forms is that of the values which the map holds for the member cells; when the keys of
  the value map are the filled cells, as in every state of the search, it is the sum of
  the values of the filled member cells.
\<close>

theorem check_constraint_SUM:
  assumes "region_by_id s (region_id region) = Some region"
    and "rtype region = SUM_C"
    and "representable (region_total cv region)"
  shows "check_constraint s region cv filled partial_ok =
     Some (if set (cells region) \<subseteq> filled
           then region_total cv region = target_value region
           else partial_ok \<and> region_total cv region \<le> target_value region) \<and>
     (dom (map_of cv) = filled \<longrightarrow>
        check_constraint s region cv filled partial_ok =
          Some (if set (cells region) \<subseteq> filled
                then (\<Sum>c\<leftarrow>cells region. cell_value_or_zero cv c) = target_value region
                else partial_ok \<and> filled_total cv filled region \<le> target_value region))"
  using assms filled_total_eq [of cv filled region]
  by (simp add: check_constraint_def get_region_sum_representable is_region_complete_registered
      region_total_def)

theorem check_constraint_SUM_witness:
  "check_constraint (ex_solver 3) ex_bottom ex_full {(0, 0), (0, 1), (1, 0), (1, 1)} False
     = Some True \<and>
   check_constraint (ex_solver 3) ex_bottom [((1, 0), 3)] {(1, 0)} True = Some True \<and>
   check_constraint (ex_solver 3) ex_bottom [((1, 0), 3)] {(1, 0)} False = Some False \<and>
   check_constraint (ex_solver 3) ex_bottom [((1, 0), 6)] {(1, 0)} True = Some False \<and>
   filled_total [((1, 0), 6)] {(1, 0)} ex_bottom = 6"
proof -
  have reg: "region_by_id (ex_solver 3) (region_id ex_bottom) = Some ex_bottom"
    unfolding ex_solver_def
    by (rule mk_Solver_registered) (simp_all add: ex_top_def ex_bottom_def)
  have ty: "rtype ex_bottom = SUM_C" by (simp add: ex_bottom_def)
  have rg: "representable (region_total ex_full ex_bottom)"
    "representable (region_total [((1, 0), 3)] ex_bottom)"
    "representable (region_total [((1, 0), 6)] ex_bottom)"
    by (simp_all add: ex_bottom_def ex_full_def region_total_def cell_value_or_zero_def
        representable_def INT_MIN_def INT_MAX_def)
  show ?thesis
    using check_constraint_SUM [OF reg ty rg(1), of "{(0, 0), (0, 1), (1, 0), (1, 1)}" False]
      check_constraint_SUM [OF reg ty rg(2), of "{(1, 0)}" True]
      check_constraint_SUM [OF reg ty rg(2), of "{(1, 0)}" False]
      check_constraint_SUM [OF reg ty rg(3), of "{(1, 0)}" True]
    by (simp add: ex_bottom_def ex_full_def region_total_def filled_total_def
        cell_value_or_zero_def)
qed

text \<open>
  C3. For a LESS or GREATER region that the solver has registered under its id, with its
  linked region registered too, and cell values whose sums over the member cells of the
  two regions are values of \<open>int\<close>: while the region or the linked region has an unfilled
  member cell, the check returns \<open>partial_ok\<close>; once both are fully filled it returns the
  strict comparison of the region's sum with the linked region's sum, whatever
  \<open>partial_ok\<close> is.
\<close>

theorem check_constraint_LESS_GREATER:
  assumes "region_by_id s (region_id region) = Some region"
    and "region_by_id s (linked_region_id region) = Some linked"
    and "rtype region = LESS_C \<or> rtype region = GREATER_C"
    and "representable (region_total cv region)"
    and "representable (region_total cv linked)"
  shows "check_constraint s region cv filled partial_ok =
     Some (if set (cells region) \<subseteq> filled \<and> set (cells linked) \<subseteq> filled
           then (if rtype region = LESS_C
                 then region_total cv region < region_total cv linked
                 else region_total cv region > region_total cv linked)
           else partial_ok)"
  using assms
  by (elim disjE)
    (simp_all add: check_constraint_def get_region_sum_representable
      is_region_complete_registered)

theorem check_constraint_LESS_GREATER_witness:
  "check_constraint (ex_solver 3) ex_top ex_full {(0, 0), (0, 1), (1, 0), (1, 1)} False
     = Some True \<and>
   check_constraint (ex_solver 3) ex_top ex_full {(0, 0), (0, 1), (1, 0)} True = Some True \<and>
   check_constraint (ex_solver 3) ex_top ex_full {(0, 0), (0, 1), (1, 0)} False = Some False"
proof -
  have reg: "region_by_id (ex_solver 3) (region_id ex_top) = Some ex_top"
    unfolding ex_solver_def
    by (rule mk_Solver_registered) (simp_all add: ex_top_def ex_bottom_def)
  have "region_by_id (ex_solver 3) (region_id ex_bottom) = Some ex_bottom"
    unfolding ex_solver_def
    by (rule mk_Solver_registered) (simp_all add: ex_top_def ex_bottom_def)
  then have lnk: "region_by_id (ex_solver 3) (linked_region_id ex_top) = Some ex_bottom"
    by (simp add: ex_top_def ex_bottom_def)
  have ty: "rtype ex_top = LESS_C \<or> rtype ex_top = GREATER_C" by (simp add: ex_top_def)
  have rg: "representable (region_total ex_full ex_top)"
    "representable (region_total ex_full ex_bottom)"
    by (simp_all add: ex_top_def ex_bottom_def ex_full_def region_total_def
        cell_value_or_zero_def representable_def INT_MIN_def INT_MAX_def)
  show ?thesis
    using check_constraint_LESS_GREATER [OF reg lnk ty rg, of "{(0, 0), (0, 1), (1, 0), (1, 1)}" False]
      check_constraint_LESS_GREATER [OF reg lnk ty rg, of "{(0, 0), (0, 1), (1, 0)}" True]
      check_constraint_LESS_GREATER [OF reg lnk ty rg, of "{(0, 0), (0, 1), (1, 0)}" False]
    by (simp add: ex_top_def ex_bottom_def ex_full_def region_total_def cell_value_or_zero_def)
qed

section \<open>Cell selection\<close>

lemma fold_count_unfilled:
  "wrap32 a = a \<Longrightarrow>
   fold (\<lambda>c unfilled. if c \<notin> filled then wrap32 (unfilled + 1) else unfilled) xs a =
     wrap32 (a + int (length (filter (\<lambda>x. x \<notin> filled) xs)))"
proof (induction xs arbitrary: a)
  case Nil
  then show ?case by simp
next
  case (Cons x xs)
  show ?case
  proof (cases "x \<in> filled")
    case True
    with Cons show ?thesis by simp
  next
    case False
    have "wrap32 (wrap32 (a + 1)) = wrap32 (a + 1)"
      by (rule wrap32_representable) (rule representable_wrap32)
    from Cons.IH [OF this] False show ?thesis
      by (simp add: wrap32_add_left add.assoc)
  qed
qed

lemma count_unfilled_eq:
  assumes "int (length (cells reg)) \<le> INT_MAX"
  shows "count_unfilled reg filled = int (length (filter (\<lambda>x. x \<notin> filled) (cells reg)))"
proof -
  have "int (length (filter (\<lambda>x. x \<notin> filled) (cells reg))) \<le> int (length (cells reg))"
    by simp
  with assms have "int (length (filter (\<lambda>x. x \<notin> filled) (cells reg))) \<le> INT_MAX"
    by linarith
  then have "representable (int (length (filter (\<lambda>x. x \<notin> filled) (cells reg))))"
    by (simp add: representable_def INT_MIN_def)
  moreover have "wrap32 0 = 0" by (simp add: wrap32_def)
  ultimately show ?thesis
    by (simp add: count_unfilled_def fold_count_unfilled wrap32_representable)
qed

lemma choose_cell_loop_total:
  "\<forall>c\<in>set xs. c \<notin> filled_cells st \<longrightarrow> region_by_id s (region_of_cell s c) \<noteq> None \<Longrightarrow>
     \<exists>r. choose_cell_loop s st xs best m = Some r"
  by (induction xs arbitrary: best m) (auto simp: Let_def)

lemma choose_cell_loop_min:
  assumes "\<forall>c\<in>set xs. c \<notin> filled_cells st \<longrightarrow>
      (\<exists>reg. region_by_id s (region_of_cell s c) = Some reg \<and>
             int (length (cells reg)) \<le> INT_MAX)"
    and "sorted xs"
  shows "\<exists>r. choose_cell_loop s st xs best m = Some r \<and>
     ((r = best \<and> (\<forall>c\<in>set xs. c \<notin> filled_cells st \<longrightarrow> m \<le> int (owner_unfilled s st c))) \<or>
      (r \<in> set xs \<and> r \<notin> filled_cells st \<and> int (owner_unfilled s st r) < m \<and>
       (\<forall>c\<in>set xs. c \<notin> filled_cells st \<longrightarrow>
          owner_unfilled s st r \<le> owner_unfilled s st c \<and>
          (owner_unfilled s st c = owner_unfilled s st r \<longrightarrow> r \<le> c))))"
  using assms
proof (induction xs arbitrary: best m)
  case Nil
  then show ?case by simp
next
  case (Cons x xs)
  have srt: "sorted xs" and le: "\<forall>c\<in>set xs. x \<le> c"
    using Cons.prems(2) by simp_all
  have reg: "\<forall>c\<in>set xs. c \<notin> filled_cells st \<longrightarrow>
      (\<exists>reg. region_by_id s (region_of_cell s c) = Some reg \<and>
             int (length (cells reg)) \<le> INT_MAX)"
    using Cons.prems(1) by simp
  show ?case
  proof (cases "x \<in> filled_cells st")
    case True
    with Cons.IH [OF reg srt, of best m] show ?thesis by auto
  next
    case False
    then obtain rg where rg: "region_by_id s (region_of_cell s x) = Some rg"
      and sz: "int (length (cells rg)) \<le> INT_MAX"
      using Cons.prems(1) by auto
    then have cnt: "count_unfilled rg (filled_cells st) = int (owner_unfilled s st x)"
      by (simp add: count_unfilled_eq owner_unfilled_def)
    show ?thesis
    proof (cases "int (owner_unfilled s st x) < m")
      case True
      from Cons.IH [OF reg srt, of x "int (owner_unfilled s st x)"]
      obtain r where r: "choose_cell_loop s st xs x (int (owner_unfilled s st x)) = Some r"
        and alt: "(r = x \<and> (\<forall>c\<in>set xs. c \<notin> filled_cells st \<longrightarrow>
                      int (owner_unfilled s st x) \<le> int (owner_unfilled s st c))) \<or>
           (r \<in> set xs \<and> r \<notin> filled_cells st \<and>
            int (owner_unfilled s st r) < int (owner_unfilled s st x) \<and>
            (\<forall>c\<in>set xs. c \<notin> filled_cells st \<longrightarrow>
               owner_unfilled s st r \<le> owner_unfilled s st c \<and>
               (owner_unfilled s st c = owner_unfilled s st r \<longrightarrow> r \<le> c)))"
        by blast
      have "choose_cell_loop s st (x # xs) best m = Some r"
        using False rg cnt True r by (simp add: Let_def)
      moreover from alt have "r \<in> set (x # xs) \<and> r \<notin> filled_cells st \<and>
          int (owner_unfilled s st r) < m \<and>
          (\<forall>c\<in>set (x # xs). c \<notin> filled_cells st \<longrightarrow>
             owner_unfilled s st r \<le> owner_unfilled s st c \<and>
             (owner_unfilled s st c = owner_unfilled s st r \<longrightarrow> r \<le> c))"
      proof
        assume "r = x \<and> (\<forall>c\<in>set xs. c \<notin> filled_cells st \<longrightarrow>
                      int (owner_unfilled s st x) \<le> int (owner_unfilled s st c))"
        then show ?thesis using False True le by auto
      next
        assume "r \<in> set xs \<and> r \<notin> filled_cells st \<and>
            int (owner_unfilled s st r) < int (owner_unfilled s st x) \<and>
            (\<forall>c\<in>set xs. c \<notin> filled_cells st \<longrightarrow>
               owner_unfilled s st r \<le> owner_unfilled s st c \<and>
               (owner_unfilled s st c = owner_unfilled s st r \<longrightarrow> r \<le> c))"
        then show ?thesis using True by auto
      qed
      ultimately show ?thesis by blast
    next
      case nlt: False
      from Cons.IH [OF reg srt, of best m]
      obtain r where r: "choose_cell_loop s st xs best m = Some r"
        and alt: "(r = best \<and> (\<forall>c\<in>set xs. c \<notin> filled_cells st \<longrightarrow>
                      m \<le> int (owner_unfilled s st c))) \<or>
           (r \<in> set xs \<and> r \<notin> filled_cells st \<and> int (owner_unfilled s st r) < m \<and>
            (\<forall>c\<in>set xs. c \<notin> filled_cells st \<longrightarrow>
               owner_unfilled s st r \<le> owner_unfilled s st c \<and>
               (owner_unfilled s st c = owner_unfilled s st r \<longrightarrow> r \<le> c)))"
        by blast
      have "choose_cell_loop s st (x # xs) best m = Some r"
        using False rg cnt nlt r by (simp add: Let_def)
      moreover from alt nlt have
        "(r = best \<and> (\<forall>c\<in>set (x # xs). c \<notin> filled_cells st \<longrightarrow>
                      m \<le> int (owner_unfilled s st c))) \<or>
           (r \<in> set (x # xs) \<and> r \<notin> filled_cells st \<and> int (owner_unfilled s st r) < m \<and>
            (\<forall>c\<in>set (x # xs). c \<notin> filled_cells st \<longrightarrow>
               owner_unfilled s st r \<le> owner_unfilled s st c \<and>
               (owner_unfilled s st c = owner_unfilled s st r \<longrightarrow> r \<le> c)))"
        by auto
      ultimately show ?thesis by blast
    qed
  qed
qed


lemma choose_cell_selects:
  assumes ix: "indexed regs s"
    and small: "\<forall>reg\<in>set regs. int (length (cells reg)) < INT_MAX"
    and unfilled: "\<exists>u\<in>set (all_cells s). u \<notin> filled_cells st"
  shows "\<exists>cell. choose_cell s st = Some cell \<and>
     cell \<in> set (all_cells s) \<and> cell \<notin> filled_cells st \<and>
     (\<forall>u\<in>set (all_cells s). u \<notin> filled_cells st \<longrightarrow>
        owner_unfilled s st cell \<le> owner_unfilled s st u \<and>
        (owner_unfilled s st u = owner_unfilled s st cell \<longrightarrow> cell \<le> u))"
proof -
  from ix have srt: "sorted (all_cells s)" unfolding indexed_def by blast
  have own: "\<forall>u\<in>set (all_cells s). u \<notin> filled_cells st \<longrightarrow>
      (\<exists>reg. region_by_id s (region_of_cell s u) = Some reg \<and>
             int (length (cells reg)) \<le> INT_MAX)"
  proof (intro ballI impI)
    fix u assume "u \<in> set (all_cells s)"
    from indexed_owner [OF ix this] obtain reg where "reg \<in> set regs"
      and "region_by_id s (region_of_cell s u) = Some reg" by blast
    with small show "\<exists>reg. region_by_id s (region_of_cell s u) = Some reg \<and>
        int (length (cells reg)) \<le> INT_MAX"
      by fastforce
  qed
  have bound: "int (owner_unfilled s st u) < INT_MAX" if "u \<in> set (all_cells s)" for u
  proof -
    from indexed_owner [OF ix that] obtain reg where reg: "reg \<in> set regs"
      and "region_by_id s (region_of_cell s u) = Some reg" by blast
    then have "owner_unfilled s st u \<le> length (cells reg)"
      by (simp add: owner_unfilled_def)
    with small reg show ?thesis by fastforce
  qed
  from choose_cell_loop_min [OF own srt, of "(- 1, - 1)" INT_MAX]
  obtain cell where cell: "choose_cell s st = Some cell"
    and alt: "(cell = (- 1, - 1) \<and>
         (\<forall>u\<in>set (all_cells s). u \<notin> filled_cells st \<longrightarrow> INT_MAX \<le> int (owner_unfilled s st u))) \<or>
      (cell \<in> set (all_cells s) \<and> cell \<notin> filled_cells st \<and>
       int (owner_unfilled s st cell) < INT_MAX \<and>
       (\<forall>u\<in>set (all_cells s). u \<notin> filled_cells st \<longrightarrow>
          owner_unfilled s st cell \<le> owner_unfilled s st u \<and>
          (owner_unfilled s st u = owner_unfilled s st cell \<longrightarrow> cell \<le> u)))"
    unfolding choose_cell_def by blast
  from unfilled bound have "\<not> (\<forall>u\<in>set (all_cells s). u \<notin> filled_cells st \<longrightarrow>
      INT_MAX \<le> int (owner_unfilled s st u))"
    by fastforce
  with alt cell show ?thesis by blast
qed

text \<open>
  C7. In a solver built by the constructor from regions of fewer than \<open>INT_MAX\<close> cells, and
  a state that leaves a cell of the grid unfilled, \<open>choose_cell\<close> returns an unfilled cell
  of the grid whose owning region has the least number of unfilled member cells among
  the unfilled cells, and among the cells with that least number the first in row-major
  order.
\<close>

theorem choose_cell_most_constrained:
  assumes s: "s = mk_Solver doms regs r c k"
    and small: "\<forall>reg\<in>set regs. int (length (cells reg)) < INT_MAX"
    and unfilled: "\<exists>u\<in>set (all_cells s). u \<notin> filled_cells st"
  shows "\<exists>cell. choose_cell s st = Some cell \<and>
     cell \<in> set (all_cells s) \<and> cell \<notin> filled_cells st \<and>
     (\<forall>u\<in>set (all_cells s). u \<notin> filled_cells st \<longrightarrow>
        owner_unfilled s st cell \<le> owner_unfilled s st u \<and>
        (owner_unfilled s st u = owner_unfilled s st cell \<longrightarrow>
           fst cell < fst u \<or> (fst cell = fst u \<and> snd cell \<le> snd u)))"
proof -
  have ix: "indexed regs s" unfolding s by (rule indexed_mk_Solver)
  from choose_cell_selects [OF ix small unfilled]
  obtain cell where cell: "choose_cell s st = Some cell"
    and main: "cell \<in> set (all_cells s) \<and> cell \<notin> filled_cells st \<and>
       (\<forall>u\<in>set (all_cells s). u \<notin> filled_cells st \<longrightarrow>
          owner_unfilled s st cell \<le> owner_unfilled s st u \<and>
          (owner_unfilled s st u = owner_unfilled s st cell \<longrightarrow> cell \<le> u))"
    by blast
  have lex: "fst a < fst b \<or> (fst a = fst b \<and> snd a \<le> snd b)" if "a \<le> b" for a b :: Cell
    using that by (cases a, cases b) (auto simp: less_eq_prod_def)
  from cell main lex show ?thesis by blast
qed

theorem choose_cell_most_constrained_witness:
  "choose_cell (mk_Solver [] ex_regs 2 3 3) ex_state = Some (1, 0) \<and>
   owner_unfilled (mk_Solver [] ex_regs 2 3 3) ex_state (1, 0) = 1 \<and>
   owner_unfilled (mk_Solver [] ex_regs 2 3 3) ex_state (0, 2) = 3"
proof -
  have a: "\<forall>reg\<in>set ex_regs. int (length (cells reg)) < INT_MAX"
    by (simp add: ex_regs_def INT_MAX_def)
  have b: "\<exists>u\<in>set (all_cells (mk_Solver [] ex_regs 2 3 3)). u \<notin> filled_cells ex_state"
    by code_simp
  have c: "owner_unfilled (mk_Solver [] ex_regs 2 3 3) ex_state (1, 0) = 1"
    "owner_unfilled (mk_Solver [] ex_regs 2 3 3) ex_state (0, 2) = 3"
    "owner_unfilled (mk_Solver [] ex_regs 2 3 3) ex_state (1, 1) = 3"
    "owner_unfilled (mk_Solver [] ex_regs 2 3 3) ex_state (1, 2) = 3"
    by code_simp+
  have d: "set (all_cells (mk_Solver [] ex_regs 2 3 3)) = {(0,0),(0,1),(0,2),(1,0),(1,1),(1,2)}"
    by code_simp
  from choose_cell_most_constrained [OF refl a b]
  obtain cell where "choose_cell (mk_Solver [] ex_regs 2 3 3) ex_state = Some cell"
    and "cell \<in> set (all_cells (mk_Solver [] ex_regs 2 3 3))" "cell \<notin> filled_cells ex_state"
    and "owner_unfilled (mk_Solver [] ex_regs 2 3 3) ex_state cell
           \<le> owner_unfilled (mk_Solver [] ex_regs 2 3 3) ex_state (1, 0)"
    unfolding d by (auto simp: ex_state_def)
  then show ?thesis using c unfolding d by (auto simp: ex_state_def)
qed

section \<open>The search enumerates the accepted states of the tree\<close>

lemma backtrack_unfold:
  "backtrack s found state =
     (if capped s found then Some found
      else if card (filled_cells state) = length (all_cells s) then
        (case verify_all s (regions s) (cell_values state) (filled_cells state) of
           None \<Rightarrow> None
         | Some ok \<Rightarrow> if \<not> ok then Some found else Some (accept found state))
      else
        (case choose_cell s state of
           None \<Rightarrow> None
         | Some cell \<Rightarrow>
             if fst cell < 0 then Some found
             else
               (case for_each (dominoes s) (try_domino s state cell) found of
                  None \<Rightarrow> None
                | Some (Next found') \<Rightarrow> Some found'
                | Some (Return found') \<Rightarrow> Some found')))"
  unfolding try_domino_def [abs_def] try_adjacent_def [abs_def] try_orientation_def [abs_def]
  by (rule backtrack.simps)

lemma post_refl:
  "signature_invariant a \<Longrightarrow> \<not> capped s a \<Longrightarrow> post s {} a a"
  by (simp add: post_def capped_def)

lemma post_mono_capped:
  "post s T a a' \<Longrightarrow> capped s a' \<Longrightarrow> T \<subseteq> T' \<Longrightarrow> post s T' a a'"
  by (auto simp: post_def)

lemma post_trans:
  assumes "post s T1 a a'" and "\<not> capped s a'" and "post s T2 a' a''"
  shows "post s (T1 \<union> T2) a a''"
proof -
  have 1: "seen_signatures a' = seen_signatures a \<union> cell_values ` T1"
    using assms(1,2) by (simp add: post_def)
  have 2: "set (solutions a) \<subseteq> set (solutions a')" "set (solutions a') \<subseteq> set (solutions a) \<union> T1"
    using assms(1) by (simp_all add: post_def)
  have 3: "set (solutions a') \<subseteq> set (solutions a'')"
    "set (solutions a'') \<subseteq> set (solutions a') \<union> T2"
    "signature_invariant a''" "length (solutions a'') \<le> size_t_of_int (max_solutions s)"
    "\<not> capped s a'' \<longrightarrow> seen_signatures a'' = seen_signatures a' \<union> cell_values ` T2"
    using assms(3) by (simp_all add: post_def)
  have "set (solutions a) \<subseteq> set (solutions a'')" using 2(1) 3(1) by blast
  moreover have "set (solutions a'') \<subseteq> set (solutions a) \<union> (T1 \<union> T2)"
    using 2(2) 3(2) by blast
  moreover have "\<not> capped s a'' \<longrightarrow>
      seen_signatures a'' = seen_signatures a \<union> cell_values ` (T1 \<union> T2)"
    using 3(5) 1 by (simp add: image_Un Un_assoc)
  ultimately show ?thesis using 3(3,4) by (simp add: post_def)
qed

lemma flow_post_trans:
  "post s T1 a a' \<Longrightarrow> \<not> capped s a' \<Longrightarrow> flow_post s T2 a' r \<Longrightarrow> flow_post s (T1 \<union> T2) a r"
  by (auto simp: flow_post_def split: flow.splits intro: post_trans)

lemma for_each_post:
  assumes "for_each xs body a = Some r"
    and "signature_invariant a" and "\<not> capped s a"
    and "\<And>x a r. x \<in> set xs \<Longrightarrow> signature_invariant a \<Longrightarrow> \<not> capped s a \<Longrightarrow>
           body x a = Some r \<Longrightarrow> flow_post s (T x) a r"
  shows "flow_post s (\<Union>x\<in>set xs. T x) a r"
  using assms
proof (induction xs arbitrary: a)
  case Nil
  then show ?case by (auto simp: flow_post_def post_refl)
next
  case (Cons x xs)
  from Cons.prems(1) obtain r1 where r1: "body x a = Some r1"
    by (auto split: option.splits)
  have fp: "flow_post s (T x) a r1"
    using Cons.prems(4) [OF _ Cons.prems(2,3) r1] by simp
  show ?case
  proof (cases r1)
    case (Return a')
    with r1 Cons.prems(1) have "r = Return a'" by simp
    with fp Return show ?thesis
      by (auto simp: flow_post_def intro: post_mono_capped)
  next
    case (Next a')
    with r1 Cons.prems(1) have run: "for_each xs body a' = Some r" by simp
    from fp Next have p1: "post s (T x) a a'" and nc: "\<not> capped s a'"
      by (simp_all add: flow_post_def)
    then have inv: "signature_invariant a'" by (simp add: post_def)
    have "flow_post s (\<Union>x\<in>set xs. T x) a' r"
      by (rule Cons.IH [OF run inv nc]) (rule Cons.prems(4), auto)
    from flow_post_trans [OF p1 nc this] show ?thesis by simp
  qed
qed


lemma accepted_below_unfold:
  "accepted_below s state =
     (if accepted s state then {state} else {}) \<union>
     (\<Union>state'\<in>{x. extends s state x}. accepted_below s state')"
  unfolding accepted_below_def
  by (auto elim: converse_rtranclpE intro: converse_rtranclp_into_rtranclp)

lemma accepted_below_complete:
  assumes "card (filled_cells state) = length (all_cells s)"
  shows "accepted_below s state =
     (if verify_all s (regions s) (cell_values state) (filled_cells state) = Some True
      then {state} else {})"
proof -
  have "\<not> extends s state x" for x
    using assms by (auto elim: extends.cases)
  then show ?thesis
    using assms by (subst accepted_below_unfold) (auto simp: accepted_def)
qed

lemma accepted_below_dead:
  assumes "card (filled_cells state) \<noteq> length (all_cells s)"
    and "choose_cell s state = Some cell" and "fst cell < 0"
  shows "accepted_below s state = {}"
proof -
  have "\<not> extends s state x" for x
    using assms by (auto elim: extends.cases)
  then show ?thesis
    using assms by (subst accepted_below_unfold) (auto simp: accepted_def)
qed

lemma extends_children:
  assumes "card (filled_cells state) \<noteq> length (all_cells s)"
    and "choose_cell s state = Some cell" and "\<not> fst cell < 0"
  shows "extends s state state' \<longleftrightarrow>
     (\<exists>d\<in>set (dominoes s). d \<notin> used_dominoes state \<and>
       (\<exists>adj\<in>set (get_adjacent s cell). adj \<notin> filled_cells state \<and>
          cell_to_region s cell \<noteq> None \<and> cell_to_region s adj \<noteq> None \<and>
          (\<exists>pips\<in>set (orientations d).
             check_affected s (affected_regions (region_of_cell s cell) (region_of_cell s adj))
               (map_assign (map_assign (cell_values state) cell (fst pips)) adj (snd pips))
               (insert adj (insert cell (filled_cells state))) = Some True \<and>
             state' = new_state state d cell adj
               (map_assign (map_assign (cell_values state) cell (fst pips)) adj (snd pips))
               (insert adj (insert cell (filled_cells state))))))"
  (is "?L \<longleftrightarrow> ?R")
proof
  assume ?L
  then show ?R using assms by (cases rule: extends.cases) (simp, blast)
next
  assume ?R
  then show ?L using assms by (auto intro!: extends.place)
qed

lemma mem_below_orientation:
  "x \<in> below_orientation s state cell d adj pips \<longleftrightarrow>
     check_affected s (affected_regions (region_of_cell s cell) (region_of_cell s adj))
       (map_assign (map_assign (cell_values state) cell (fst pips)) adj (snd pips))
       (insert adj (insert cell (filled_cells state))) = Some True \<and>
     x \<in> accepted_below s (new_state state d cell adj
       (map_assign (map_assign (cell_values state) cell (fst pips)) adj (snd pips))
       (insert adj (insert cell (filled_cells state))))"
  by (simp add: below_orientation_def Let_def)

lemma mem_below_adjacent:
  "x \<in> below_adjacent s state cell d adj \<longleftrightarrow>
     adj \<notin> filled_cells state \<and> cell_to_region s cell \<noteq> None \<and> cell_to_region s adj \<noteq> None \<and>
     (\<exists>pips\<in>set (orientations d). x \<in> below_orientation s state cell d adj pips)"
  by (simp add: below_adjacent_def)

lemma mem_below_domino:
  "x \<in> below_domino s state cell d \<longleftrightarrow>
     d \<notin> used_dominoes state \<and>
     (\<exists>adj\<in>set (get_adjacent s cell). x \<in> below_adjacent s state cell d adj)"
  by (simp add: below_domino_def)

lemma accepted_below_branch:
  assumes "card (filled_cells state) \<noteq> length (all_cells s)"
    and "choose_cell s state = Some cell" and "\<not> fst cell < 0"
  shows "accepted_below s state = (\<Union>d\<in>set (dominoes s). below_domino s state cell d)"
proof -
  have na: "\<not> accepted s state" using assms(1) by (simp add: accepted_def)
  have "(\<Union>state'\<in>{x. extends s state x}. accepted_below s state') =
      (\<Union>d\<in>set (dominoes s). below_domino s state cell d)" (is "?A = ?B")
  proof (rule set_eqI)
    fix x
    have "x \<in> ?A \<longleftrightarrow> (\<exists>state'. extends s state state' \<and> x \<in> accepted_below s state')"
      by auto
    also have "\<dots> \<longleftrightarrow> (\<exists>d\<in>set (dominoes s). x \<in> below_domino s state cell d)"
      unfolding extends_children [OF assms] mem_below_domino mem_below_adjacent
        mem_below_orientation
      by blast
    also have "\<dots> \<longleftrightarrow> x \<in> ?B" by auto
    finally show "x \<in> ?A \<longleftrightarrow> x \<in> ?B" .
  qed
  then show ?thesis
    by (subst accepted_below_unfold) (simp add: na)
qed


lemma signature_invariant_accept:
  "signature_invariant found \<Longrightarrow> signature_invariant (accept found state)"
  by (auto simp: signature_invariant_def accept_def Let_def)

lemma post_accept:
  assumes "signature_invariant found" and "\<not> capped s found"
  shows "post s {state} found (accept found state)"
  using assms
  unfolding post_def
  by (auto simp: signature_invariant_accept)
     (auto simp: accept_def Let_def capped_def signature_invariant_def split: if_splits)

lemma try_orientation_post:
  assumes IH: "\<And>a a'. signature_invariant a \<Longrightarrow> \<not> capped s a \<Longrightarrow>
      check_affected s (affected_regions (region_of_cell s cell) (region_of_cell s adj))
        (map_assign (map_assign (cell_values state) cell (fst pips)) adj (snd pips))
        (insert adj (insert cell (filled_cells state))) = Some True \<Longrightarrow>
      backtrack s a (new_state state d cell adj
        (map_assign (map_assign (cell_values state) cell (fst pips)) adj (snd pips))
        (insert adj (insert cell (filled_cells state)))) = Some a' \<Longrightarrow>
      post s (accepted_below s (new_state state d cell adj
        (map_assign (map_assign (cell_values state) cell (fst pips)) adj (snd pips))
        (insert adj (insert cell (filled_cells state))))) a a'"
    and inv: "signature_invariant a" and nc: "\<not> capped s a"
    and run: "try_orientation s state cell d adj pips a = Some r"
  shows "flow_post s (below_orientation s state cell d adj pips) a r"
proof -
  let ?nv = "map_assign (map_assign (cell_values state) cell (fst pips)) adj (snd pips)"
  let ?nf = "insert adj (insert cell (filled_cells state))"
  let ?chk = "check_affected s (affected_regions (region_of_cell s cell) (region_of_cell s adj))
      ?nv ?nf"
  from run obtain valid where chk: "?chk = Some valid"
    by (auto simp: try_orientation_def Let_def split: option.splits)
  show ?thesis
  proof (cases valid)
    case False
    with run chk have "r = Next a"
      by (simp add: try_orientation_def Let_def)
    moreover from chk False have "below_orientation s state cell d adj pips = {}"
      by (simp add: below_orientation_def Let_def)
    ultimately show ?thesis using inv nc by (simp add: flow_post_def post_refl)
  next
    case True
    with run chk obtain a' where bt: "backtrack s a (new_state state d cell adj ?nv ?nf) = Some a'"
      and r: "r = (if capped s a' then Return a' else Next a')"
      by (auto simp: try_orientation_def Let_def split: option.splits if_splits)
    from chk True have below:
      "below_orientation s state cell d adj pips =
         accepted_below s (new_state state d cell adj ?nv ?nf)"
      by (simp add: below_orientation_def Let_def)
    from IH [OF inv nc _ bt] chk True
    have "post s (accepted_below s (new_state state d cell adj ?nv ?nf)) a a'" by simp
    then show ?thesis unfolding below r by (simp add: flow_post_def)
  qed
qed

lemma try_adjacent_post:
  assumes IH: "\<And>pips a r. pips \<in> set (orientations d) \<Longrightarrow> adj \<notin> filled_cells state \<Longrightarrow>
      \<not> (cell_to_region s cell = None \<or> cell_to_region s adj = None) \<Longrightarrow>
      signature_invariant a \<Longrightarrow> \<not> capped s a \<Longrightarrow>
      try_orientation s state cell d adj pips a = Some r \<Longrightarrow>
      flow_post s (below_orientation s state cell d adj pips) a r"
    and inv: "signature_invariant a" and nc: "\<not> capped s a"
    and run: "try_adjacent s state cell d adj a = Some r"
  shows "flow_post s (below_adjacent s state cell d adj) a r"
proof (cases "adj \<in> filled_cells state \<or> cell_to_region s cell = None \<or> cell_to_region s adj = None")
  case True
  with run have "r = Next a" by (auto simp: try_adjacent_def split: if_splits)
  moreover from True have "below_adjacent s state cell d adj = {}"
    by (simp add: below_adjacent_def)
  ultimately show ?thesis using inv nc by (simp add: flow_post_def post_refl)
next
  case False
  with run have "for_each (orientations d) (try_orientation s state cell d adj) a = Some r"
    by (auto simp: try_adjacent_def)
  then have "flow_post s (\<Union>pips\<in>set (orientations d). below_orientation s state cell d adj pips) a r"
  proof (rule for_each_post [OF _ inv nc])
    fix x b q
    assume "x \<in> set (orientations d)" "signature_invariant b" "\<not> capped s b"
      "try_orientation s state cell d adj x b = Some q"
    with False show "flow_post s (below_orientation s state cell d adj x) b q"
      by (intro IH) simp_all
  qed
  with False show ?thesis by (auto simp: below_adjacent_def)
qed

lemma try_domino_post:
  assumes IH: "\<And>adj a r. adj \<in> set (get_adjacent s cell) \<Longrightarrow> d \<notin> used_dominoes state \<Longrightarrow>
      signature_invariant a \<Longrightarrow> \<not> capped s a \<Longrightarrow>
      try_adjacent s state cell d adj a = Some r \<Longrightarrow>
      flow_post s (below_adjacent s state cell d adj) a r"
    and inv: "signature_invariant a" and nc: "\<not> capped s a"
    and run: "try_domino s state cell d a = Some r"
  shows "flow_post s (below_domino s state cell d) a r"
proof (cases "d \<in> used_dominoes state")
  case True
  with run have "r = Next a" by (simp add: try_domino_def)
  moreover from True have "below_domino s state cell d = {}"
    by (simp add: below_domino_def)
  ultimately show ?thesis using inv nc by (simp add: flow_post_def post_refl)
next
  case False
  with run have "for_each (get_adjacent s cell) (try_adjacent s state cell d) a = Some r"
    by (simp add: try_domino_def)
  then have "flow_post s (\<Union>adj\<in>set (get_adjacent s cell). below_adjacent s state cell d adj) a r"
  proof (rule for_each_post [OF _ inv nc])
    fix x b q
    assume "x \<in> set (get_adjacent s cell)" "signature_invariant b" "\<not> capped s b"
      "try_adjacent s state cell d x b = Some q"
    with False show "flow_post s (below_adjacent s state cell d x) b q"
      by (intro IH) simp_all
  qed
  with False show ?thesis by (simp add: below_domino_def)
qed

lemma backtrack_post:
  "signature_invariant found \<Longrightarrow> \<not> capped s found \<Longrightarrow> backtrack s found state = Some found' \<Longrightarrow>
     post s (accepted_below s state) found found'"
proof (induction s found state arbitrary: found' rule: backtrack.induct)
  case (1 s found state)
  note inv = \<open>signature_invariant found\<close> and nc = \<open>\<not> capped s found\<close>
    and run = \<open>backtrack s found state = Some found'\<close>
  show ?case
  proof (cases "card (filled_cells state) = length (all_cells s)")
    case True
    with run nc obtain ok where
      ok: "verify_all s (regions s) (cell_values state) (filled_cells state) = Some ok"
      and res: "found' = (if \<not> ok then found else accept found state)"
      by (subst (asm) backtrack_unfold) (auto split: option.splits if_splits)
    show ?thesis
      using ok res inv nc
      by (cases ok) (simp_all add: accepted_below_complete [OF True] post_refl post_accept)
  next
    case False
    with run nc obtain cell where cell: "choose_cell s state = Some cell"
      by (subst (asm) backtrack_unfold) (auto split: option.splits)
    show ?thesis
    proof (cases "fst cell < 0")
      case True
      with run nc False cell have "found' = found"
        by (subst (asm) backtrack_unfold) simp
      then show ?thesis
        using accepted_below_dead [OF False cell True] inv nc by (simp add: post_refl)
    next
      case nonneg: False
      from run nc False cell nonneg obtain r where
        loop: "for_each (dominoes s) (try_domino s state cell) found = Some r"
        and res: "found' = (case r of Next x \<Rightarrow> x | Return x \<Rightarrow> x)"
        by (subst (asm) backtrack_unfold) (auto split: option.splits flow.splits)
      have L3: "flow_post s (below_orientation s state cell d adj pips) a r"
        if "d \<in> set (dominoes s)" "d \<notin> used_dominoes state"
          "adj \<in> set (get_adjacent s cell)" "adj \<notin> filled_cells state"
          "\<not> (cell_to_region s cell = None \<or> cell_to_region s adj = None)"
          "pips \<in> set (orientations d)"
          "signature_invariant a" "\<not> capped s a"
          "try_orientation s state cell d adj pips a = Some r"
        for d adj pips a r
      proof (rule try_orientation_post [OF _ that(7,8,9)])
        fix b b'
        assume b: "signature_invariant b" "\<not> capped s b"
          and chk: "check_affected s
            (affected_regions (region_of_cell s cell) (region_of_cell s adj))
            (map_assign (map_assign (cell_values state) cell (fst pips)) adj (snd pips))
            (insert adj (insert cell (filled_cells state))) = Some True"
          and bt: "backtrack s b (new_state state d cell adj
            (map_assign (map_assign (cell_values state) cell (fst pips)) adj (snd pips))
            (insert adj (insert cell (filled_cells state)))) = Some b'"
        have tt: "\<not> \<not> True" by simp
        show "post s (accepted_below s (new_state state d cell adj
            (map_assign (map_assign (cell_values state) cell (fst pips)) adj (snd pips))
            (insert adj (insert cell (filled_cells state))))) b b'"
          by (rule "1.IH" [OF nc False cell nonneg that(1,2,3,4,5,6) refl refl chk tt b bt])
      qed
      have L2: "flow_post s (below_adjacent s state cell d adj) a r"
        if "d \<in> set (dominoes s)" "d \<notin> used_dominoes state"
          "adj \<in> set (get_adjacent s cell)"
          "signature_invariant a" "\<not> capped s a"
          "try_adjacent s state cell d adj a = Some r"
        for d adj a r
        by (rule try_adjacent_post [OF _ that(4,5,6)]) (rule L3 [OF that(1,2,3)])
      have L1: "flow_post s (below_domino s state cell d) a r"
        if "d \<in> set (dominoes s)"
          "signature_invariant a" "\<not> capped s a"
          "try_domino s state cell d a = Some r"
        for d a r
        by (rule try_domino_post [OF _ that(2,3,4)]) (rule L2 [OF that(1)])
      have "flow_post s (\<Union>d\<in>set (dominoes s). below_domino s state cell d) found r"
        by (rule for_each_post [OF loop inv nc]) (rule L1)
      then have "post s (accepted_below s state) found found'"
        unfolding accepted_below_branch [OF False cell nonneg] res
        by (cases r) (simp_all add: flow_post_def)
      then show ?thesis .
    qed
  qed
qed
section \<open>Invariants of the assignment states\<close>

lemma accepted_below_stuck:
  assumes "card (filled_cells state) \<noteq> length (all_cells s)"
    and "choose_cell s state = None"
  shows "accepted_below s state = {}"
proof -
  have "\<not> extends s state x" for x
    using assms by (auto elim: extends.cases)
  then show ?thesis
    using assms by (subst accepted_below_unfold) (auto simp: accepted_def)
qed

lemma finite_accepted_below: "finite (accepted_below s state)"
proof (induction "card (set (all_cells s) - filled_cells state)" arbitrary: state rule: less_induct)
  case less
  show ?case
  proof (cases "card (filled_cells state) = length (all_cells s)")
    case True
    then show ?thesis by (simp add: accepted_below_complete)
  next
    case False
    show ?thesis
    proof (cases "choose_cell s state")
      case None
      with False show ?thesis by (simp add: accepted_below_stuck)
    next
      case (Some cell)
      show ?thesis
      proof (cases "fst cell < 0")
        case True
        with False Some show ?thesis by (simp add: accepted_below_dead)
      next
        case nonneg: False
        from choose_cell_unfilled [OF Some nonneg]
        have cell: "cell \<in> set (all_cells s)" "cell \<notin> filled_cells state" by simp_all
        have "finite (below_orientation s state cell d adj pips)" for d adj pips
        proof -
          have "card (set (all_cells s) - insert adj (insert cell (filled_cells state)))
              < card (set (all_cells s) - filled_cells state)"
            using cell by (intro card_fill_two) simp_all
          then have "finite (accepted_below s (new_state state d cell adj nv
              (insert adj (insert cell (filled_cells state)))))" for nv
            by (intro less) (simp add: new_state_def)
          then show ?thesis by (simp add: below_orientation_def Let_def)
        qed
        then have "finite (below_domino s state cell d)" for d
          by (simp add: below_domino_def below_adjacent_def)
        then show ?thesis
          by (simp add: accepted_below_branch [OF False Some nonneg])
      qed
    qed
  qed
qed

lemma map_assign_keys:
  "set (map fst (map_assign m k v)) = insert k (set (map fst m))"
  by (induction m k v rule: map_assign.induct) auto

lemma map_assign_sorted:
  "sorted_wrt (<) (map fst m) \<Longrightarrow> sorted_wrt (<) (map fst (map_assign m k v))"
proof (induction m k v rule: map_assign.induct)
  case (1 k v)
  then show ?case by simp
next
  case (2 k' v' m k v)
  have keys: "set (map fst (map_assign m k v)) = insert k (set (map fst m))"
    by (rule map_assign_keys)
  from 2 show ?case
    using keys by (auto simp: less_le_not_le)
qed

lemma extends_state_invariant:
  assumes "extends s state state'" and "state_invariant state"
  shows "state_invariant state'"
  using assms(1)
proof (cases rule: extends.cases)
  case (place cell d adj pips new_values new_filled)
  from choose_cell_unfilled [OF place(3,4)] have cell: "cell \<notin> filled_cells state" by simp
  from get_adjacent_cells [OF place(7)] have adj: "adj \<noteq> cell" by simp
  from assms(2) have used: "used_dominoes state = set (map domino (placed state))"
    and dist: "distinct (map domino (placed state))"
    and keys: "filled_cells state = set (map fst (cell_values state))"
    and srt: "sorted_wrt (<) (map fst (cell_values state))"
    and crd: "card (filled_cells state) = 2 * length (placed state)"
    unfolding state_invariant_def by blast+
  have fin: "finite (filled_cells state)" unfolding keys by simp
  have c2: "card (insert adj (insert cell (filled_cells state))) = card (filled_cells state) + 2"
    using cell adj place(8) fin by simp
  have "used_dominoes state' = set (map domino (placed state'))"
    unfolding place(1) using used by (simp add: new_state_def)
  moreover have "distinct (map domino (placed state'))"
    unfolding place(1) using dist used place(6) by (simp add: new_state_def)
  moreover have "filled_cells state' = set (map fst (cell_values state'))"
    unfolding place(1) place(12,13) using keys
    by (simp only: new_state_def SolverState.simps map_assign_keys)
  moreover have "sorted_wrt (<) (map fst (cell_values state'))"
    unfolding place(1) place(12) using srt
    by (simp only: new_state_def SolverState.simps map_assign_sorted)
  moreover have "card (filled_cells state') = 2 * length (placed state')"
    unfolding place(1) place(13) using c2 crd by (simp add: new_state_def)
  ultimately show ?thesis by (simp only: state_invariant_def simp_thms)
qed

lemma reachable_invariant: "reachable s state \<Longrightarrow> state_invariant state"
  unfolding reachable_def
proof (induction rule: rtranclp_induct)
  case base
  then show ?case by (simp add: state_invariant_def initial_def)
next
  case (step y z)
  then show ?case by (simp add: extends_state_invariant)
qed

text \<open>
  C9. In every state that the search reaches from the empty root state, the used tiles
  are exactly the tiles of the placed list and no tile is placed twice, the filled cells
  are exactly the keys of the value map (each key once), and every extension of the
  state fills two distinct cells that were not filled: the number of filled cells is
  twice the number of placements.
\<close>

theorem reachable_state_invariant:
  assumes "reachable s state"
  shows "used_dominoes state = set (map domino (placed state)) \<and>
     distinct (map domino (placed state)) \<and>
     filled_cells state = fst ` set (cell_values state) \<and>
     distinct (map fst (cell_values state)) \<and>
     card (filled_cells state) = 2 * length (placed state) \<and>
     (\<forall>state'. extends s state state' \<longrightarrow>
        (\<exists>cell adj. cell \<noteq> adj \<and> cell \<notin> filled_cells state \<and> adj \<notin> filled_cells state \<and>
           filled_cells state' = insert adj (insert cell (filled_cells state))))"
proof -
  have step: "\<exists>cell adj. cell \<noteq> adj \<and> cell \<notin> filled_cells state \<and> adj \<notin> filled_cells state \<and>
           filled_cells state' = insert adj (insert cell (filled_cells state))"
    if "extends s state state'" for state'
    using that
  proof (cases rule: extends.cases)
    case (place cell d adj pips new_values new_filled)
    from choose_cell_unfilled [OF place(3,4)] get_adjacent_cells [OF place(7)] place(8)
    have "cell \<noteq> adj \<and> cell \<notin> filled_cells state \<and> adj \<notin> filled_cells state" by auto
    moreover have "filled_cells state' = insert adj (insert cell (filled_cells state))"
      using place by (simp add: new_state_def)
    ultimately show ?thesis by blast
  qed
  from reachable_invariant [OF assms] step show ?thesis
    by (auto simp: state_invariant_def strict_sorted_iff dest: strict_sorted_imp_sorted)
qed

lemma ex_first_reachable: "reachable (ex_solver 3) ex_first"
proof -
  have "extends (ex_solver 3) initial ex_first"
    unfolding ex_first_def
  proof (rule extends.place [where pips = "(0, 1)"])
    show "card (filled_cells initial) \<noteq> length (all_cells (ex_solver 3))" by code_simp
    show "choose_cell (ex_solver 3) initial = Some (0, 0)" by code_simp
    show "\<not> fst (0 :: int, 0 :: int) < 0" by simp
    show "\<lparr>low = 0, high = 1\<rparr> \<in> set (dominoes (ex_solver 3))" by code_simp
    show "\<lparr>low = 0, high = 1\<rparr> \<notin> used_dominoes initial" by (simp add: initial_def)
    show "(0, 1) \<in> set (get_adjacent (ex_solver 3) (0, 0))" by code_simp
    show "(0, 1) \<notin> filled_cells initial" by (simp add: initial_def)
    show "cell_to_region (ex_solver 3) (0, 0) \<noteq> None" by code_simp
    show "cell_to_region (ex_solver 3) (0, 1) \<noteq> None" by code_simp
    show "(0, 1) \<in> set (orientations \<lparr>low = 0, high = 1\<rparr>)" by (simp add: orientations_def)
    show "[((0, 0), 0), ((0, 1), 1)] =
        map_assign (map_assign (cell_values initial) (0, 0) (fst (0, 1))) (0, 1)
          (snd (0 :: int, 1 :: int))"
      by (simp add: initial_def)
    show "{(0, 1), (0, 0)} = insert (0, 1) (insert (0, 0) (filled_cells initial))"
      by (simp add: initial_def)
    show "check_affected (ex_solver 3)
        (affected_regions (region_of_cell (ex_solver 3) (0, 0))
           (region_of_cell (ex_solver 3) (0, 1)))
        [((0, 0), 0), ((0, 1), 1)] {(0, 1), (0, 0)} = Some True"
      by code_simp
  qed
  then show ?thesis by (simp add: reachable_def)
qed

theorem reachable_state_invariant_witness:
  "reachable (ex_solver 3) ex_first \<and>
   used_dominoes ex_first = {\<lparr>low = 0, high = 1\<rparr>} \<and>
   map domino (placed ex_first) = [\<lparr>low = 0, high = 1\<rparr>] \<and>
   filled_cells ex_first = fst ` set (cell_values ex_first) \<and>
   card (filled_cells ex_first) = 2 * length (placed ex_first)"
  using reachable_state_invariant [OF ex_first_reachable] ex_first_reachable
  by (simp add: ex_first_def new_state_def initial_def)


section \<open>The count that solve reports\<close>

lemma size_t_of_int_small: "0 \<le> k \<Longrightarrow> k \<le> INT_MAX \<Longrightarrow> size_t_of_int k = nat k"
  by (simp add: size_t_of_int_def INT_MAX_def)

lemma int_of_size_t_small: "int n \<le> INT_MAX \<Longrightarrow> int_of_size_t n = int n"
  by (simp add: int_of_size_t_def INT_MAX_def Let_def)

lemma solve_post:
  assumes k: "1 \<le> max_solutions s" "max_solutions s \<le> INT_MAX"
    and run: "solve s = Some (n, found)"
  shows "post s (accepted_below s initial) no_solutions found \<and>
     n = int (length (solutions found))"
proof -
  have cap: "size_t_of_int (max_solutions s) = nat (max_solutions s)"
    using k by (simp add: size_t_of_int_small)
  have nc: "\<not> capped s no_solutions"
    using k by (simp add: capped_def cap no_solutions_def)
  have inv: "signature_invariant no_solutions"
    by (simp add: signature_invariant_def no_solutions_def)
  from run have bt: "backtrack s no_solutions initial = Some found"
    and n: "n = int_of_size_t (length (solutions found))"
    by (auto simp: solve_def split: option.splits)
  have p: "post s (accepted_below s initial) no_solutions found"
    by (rule backtrack_post [OF inv nc bt])
  then have "length (solutions found) \<le> nat (max_solutions s)"
    by (simp add: post_def cap)
  with k have "int (length (solutions found)) \<le> INT_MAX" by linarith
  with n p show ?thesis by (simp add: int_of_size_t_small)
qed

lemma solve_count:
  assumes k: "1 \<le> max_solutions s" "max_solutions s \<le> INT_MAX"
    and run: "solve s = Some (n, found)"
  shows "n = min (max_solutions s) (int (card (true_solutions s)))"
proof -
  have cap: "size_t_of_int (max_solutions s) = nat (max_solutions s)"
    using k by (simp add: size_t_of_int_small)
  from solve_post [OF assms] have p: "post s (accepted_below s initial) no_solutions found"
    and n: "n = int (length (solutions found))" by simp_all
  from p have inv: "signature_invariant found"
    and sub: "set (solutions found) \<subseteq> accepted_below s initial"
    and len: "length (solutions found) \<le> nat (max_solutions s)"
    and all: "\<not> capped s found \<longrightarrow> seen_signatures found = true_solutions s"
    by (simp_all add: post_def cap no_solutions_def true_solutions_def)
  have fin: "finite (true_solutions s)"
    by (simp add: true_solutions_def finite_accepted_below)
  have crd: "card (seen_signatures found) = length (solutions found)"
  proof -
    from inv have "distinct (map cell_values (solutions found))"
      and "seen_signatures found = set (map cell_values (solutions found))"
      unfolding signature_invariant_def by blast+
    then show ?thesis using distinct_card [of "map cell_values (solutions found)"] by simp
  qed
  from inv sub have "seen_signatures found \<subseteq> true_solutions s"
    by (auto simp: signature_invariant_def true_solutions_def)
  then have le: "length (solutions found) \<le> card (true_solutions s)"
    using fin crd card_mono by metis
  show ?thesis
  proof (cases "capped s found")
    case True
    then have "length (solutions found) = nat (max_solutions s)"
      using len by (simp add: capped_def cap)
    with le n k show ?thesis by simp
  next
    case False
    with all crd have "card (true_solutions s) = length (solutions found)" by simp
    moreover from False have "length (solutions found) < nat (max_solutions s)"
      by (simp add: capped_def cap)
    ultimately show ?thesis using n k by simp
  qed
qed


section \<open>Sound configurations never dereference a null region\<close>

lemma indexed_registered:
  "indexed regs s \<Longrightarrow> region_by_id s i = Some reg \<Longrightarrow> reg \<in> set regs \<and> region_id reg = i"
  unfolding indexed_def by blast

lemma indexed_region:
  "indexed regs s \<Longrightarrow> reg \<in> set regs \<Longrightarrow> \<exists>reg'. region_by_id s (region_id reg) = Some reg'"
  unfolding indexed_def by blast

lemma indexed_cell_region:
  "indexed regs s \<Longrightarrow> cell_to_region s c = Some i \<Longrightarrow> \<exists>reg. region_by_id s i = Some reg"
  unfolding indexed_def by blast

lemma for_each_total:
  "(\<And>x a. x \<in> set xs \<Longrightarrow> \<exists>r. body x a = Some r) \<Longrightarrow> \<exists>r. for_each xs body a = Some r"
proof (induction xs arbitrary: a)
  case Nil
  then show ?case by simp
next
  case (Cons x xs)
  from Cons.prems [of x a] obtain r where r: "body x a = Some r" by auto
  show ?case
  proof (cases r)
    case (Next a')
    have "\<exists>r. for_each xs body a' = Some r"
      by (rule Cons.IH) (rule Cons.prems, simp)
    with r Next show ?thesis by simp
  next
    case (Return a')
    with r show ?thesis by simp
  qed
qed

lemma check_constraint_total:
  assumes "region_by_id s (region_id reg) = Some reg1"
    and "rtype reg = LESS_C \<or> rtype reg = GREATER_C \<Longrightarrow>
           \<exists>reg2. region_by_id s (linked_region_id reg) = Some reg2"
  shows "\<exists>ok. check_constraint s reg cv filled p = Some ok"
proof (cases "rtype reg")
  case SUM_C
  with assms(1) show ?thesis
    by (simp add: check_constraint_def is_region_complete_def get_region_sum_def)
next
  case EQUAL_C
  with assms(1) show ?thesis
    by (auto simp: check_constraint_def is_region_complete_def get_region_values_def
        split: list.splits)
next
  case LESS_C
  with assms(2) obtain reg2 where "region_by_id s (linked_region_id reg) = Some reg2" by blast
  with LESS_C assms(1) show ?thesis
    by (simp add: check_constraint_def is_region_complete_def get_region_sum_def)
next
  case GREATER_C
  with assms(2) obtain reg2 where "region_by_id s (linked_region_id reg) = Some reg2" by blast
  with GREATER_C assms(1) show ?thesis
    by (simp add: check_constraint_def is_region_complete_def get_region_sum_def)
qed

lemma sound_check_constraint:
  assumes "sound s" and "reg \<in> set (regions s)"
  shows "\<exists>ok. check_constraint s reg cv filled p = Some ok"
proof -
  from assms have ix: "indexed (regions s) s" and lk: "links_exist (regions s)"
    by (simp_all add: sound_def)
  from indexed_region [OF ix assms(2)] obtain reg1 where
    r1: "region_by_id s (region_id reg) = Some reg1" by blast
  have "\<exists>reg2. region_by_id s (linked_region_id reg) = Some reg2"
    if "rtype reg = LESS_C \<or> rtype reg = GREATER_C"
  proof -
    from that lk assms(2) obtain other where "other \<in> set (regions s)"
      and "linked_region_id reg = region_id other"
      unfolding links_exist_def by blast
    with indexed_region [OF ix, of other] show ?thesis by simp
  qed
  with r1 show ?thesis by (rule check_constraint_total)
qed

lemma sound_verify_all:
  "sound s \<Longrightarrow> set regs \<subseteq> set (regions s) \<Longrightarrow> \<exists>ok. verify_all s regs cv filled = Some ok"
proof (induction regs)
  case Nil
  then show ?case by auto
next
  case (Cons reg regs)
  from Cons.prems(2) have "reg \<in> set (regions s)" by simp
  from sound_check_constraint [OF Cons.prems(1) this, of cv filled False]
  obtain ok where ok: "check_constraint s reg cv filled False = Some ok" by blast
  from Cons obtain ok' where "verify_all s regs cv filled = Some ok'" by auto
  with ok show ?case by auto
qed

lemma sound_check_affected:
  "sound s \<Longrightarrow> \<forall>rid\<in>set rids. \<exists>reg. region_by_id s rid = Some reg \<Longrightarrow>
     \<exists>ok. check_affected s rids nv nf = Some ok"
proof (induction rids)
  case Nil
  then show ?case by auto
next
  case (Cons rid rids)
  from Cons.prems(2) obtain reg where reg: "region_by_id s rid = Some reg" by auto
  from Cons.prems(1) have ix: "indexed (regions s) s" by (simp add: sound_def)
  from indexed_registered [OF ix reg] have "reg \<in> set (regions s)" by simp
  from sound_check_constraint [OF Cons.prems(1) this, of nv nf True]
  obtain ok where ok: "check_constraint s reg nv nf True = Some ok" by blast
  from Cons obtain ok' where "check_affected s rids nv nf = Some ok'" by auto
  with ok reg show ?case by auto
qed

lemma sound_choose_cell: "sound s \<Longrightarrow> \<exists>cell. choose_cell s state = Some cell"
proof -
  assume "sound s"
  then have ix: "indexed (regions s) s" by (simp add: sound_def)
  have "\<forall>u\<in>set (all_cells s). u \<notin> filled_cells state \<longrightarrow>
      region_by_id s (region_of_cell s u) \<noteq> None"
    using indexed_owner [OF ix] by fastforce
  then show ?thesis
    using choose_cell_loop_total [of "all_cells s" state s "(- 1, - 1)" INT_MAX]
    unfolding choose_cell_def by blast
qed

lemma sound_region_of_cell:
  assumes "sound s" and "cell_to_region s c \<noteq> None"
  shows "\<exists>reg. region_by_id s (region_of_cell s c) = Some reg"
proof -
  from assms(2) obtain i where i: "cell_to_region s c = Some i" by auto
  from assms(1) have "indexed (regions s) s" by (simp add: sound_def)
  from indexed_cell_region [OF this i] i show ?thesis by (simp add: region_of_cell_def)
qed

lemma backtrack_total: "sound s \<Longrightarrow> \<exists>found'. backtrack s found state = Some found'"
proof (induction s found state rule: backtrack.induct)
  case (1 s found state)
  note snd = \<open>sound s\<close>
  show ?case
  proof (cases "capped s found")
    case True
    then show ?thesis by (subst backtrack_unfold) simp
  next
    case nc: False
    show ?thesis
    proof (cases "card (filled_cells state) = length (all_cells s)")
      case True
      from sound_verify_all [OF snd, of "regions s" "cell_values state" "filled_cells state"]
      obtain ok where "verify_all s (regions s) (cell_values state) (filled_cells state) = Some ok"
        by auto
      with nc True show ?thesis by (subst backtrack_unfold) simp
    next
      case False
      from sound_choose_cell [OF snd, of state] obtain cell where
        cell: "choose_cell s state = Some cell" by auto
      show ?thesis
      proof (cases "fst cell < 0")
        case True
        with nc False cell show ?thesis by (subst backtrack_unfold) simp
      next
        case nonneg: False
        have L3: "\<exists>r. try_orientation s state cell d adj pips a = Some r"
          if "d \<in> set (dominoes s)" "d \<notin> used_dominoes state"
            "adj \<in> set (get_adjacent s cell)" "adj \<notin> filled_cells state"
            "\<not> (cell_to_region s cell = None \<or> cell_to_region s adj = None)"
            "pips \<in> set (orientations d)"
          for d adj pips a
        proof -
          let ?nv = "map_assign (map_assign (cell_values state) cell (fst pips)) adj (snd pips)"
          let ?nf = "insert adj (insert cell (filled_cells state))"
          have "\<forall>rid\<in>set (affected_regions (region_of_cell s cell) (region_of_cell s adj)).
              \<exists>reg. region_by_id s rid = Some reg"
            using sound_region_of_cell [OF snd, of cell] sound_region_of_cell [OF snd, of adj]
              that(5)
            by (auto simp: affected_regions_def)
          from sound_check_affected [OF snd this, of ?nv ?nf]
          obtain valid where chk: "check_affected s
              (affected_regions (region_of_cell s cell) (region_of_cell s adj)) ?nv ?nf
              = Some valid" by auto
          show ?thesis
          proof (cases valid)
            case True
            have tt: "\<not> \<not> valid" using True by simp
            from "1.IH" [OF nc False cell nonneg that(1,2,3,4,5,6) refl refl chk tt snd, of a]
            obtain a' where "backtrack s a (new_state state d cell adj ?nv ?nf) = Some a'"
              by blast
            with chk True show ?thesis
              by (simp add: try_orientation_def Let_def)
          next
            case False
            with chk show ?thesis by (simp add: try_orientation_def Let_def)
          qed
        qed
        have L2: "\<exists>r. try_adjacent s state cell d adj a = Some r"
          if "d \<in> set (dominoes s)" "d \<notin> used_dominoes state"
            "adj \<in> set (get_adjacent s cell)" for d adj a
        proof (cases "adj \<in> filled_cells state \<or> cell_to_region s cell = None \<or>
            cell_to_region s adj = None")
          case True
          then show ?thesis by (auto simp: try_adjacent_def)
        next
          case False
          then have "\<exists>r. for_each (orientations d) (try_orientation s state cell d adj) a = Some r"
            by (intro for_each_total L3 [OF that]) simp_all
          with False show ?thesis by (auto simp: try_adjacent_def)
        qed
        have L1: "\<exists>r. try_domino s state cell d a = Some r" if "d \<in> set (dominoes s)" for d a
        proof (cases "d \<in> used_dominoes state")
          case True
          then show ?thesis by (simp add: try_domino_def)
        next
          case False
          then have "\<exists>r. for_each (get_adjacent s cell) (try_adjacent s state cell d) a = Some r"
            by (intro for_each_total L2 [OF that]) simp_all
          with False show ?thesis by (simp add: try_domino_def)
        qed
        have "\<exists>r. for_each (dominoes s) (try_domino s state cell) found = Some r"
          by (intro for_each_total L1)
        then obtain r where "for_each (dominoes s) (try_domino s state cell) found = Some r"
          by blast
        with nc False cell nonneg show ?thesis
          by (subst backtrack_unfold) (simp split: flow.splits)
      qed
    qed
  qed
qed

lemma fold_register_cell_regions:
  "regions (fold (register_cell reg) cs s) = regions s \<and>
   dominoes (fold (register_cell reg) cs s) = dominoes s \<and>
   max_solutions (fold (register_cell reg) cs s) = max_solutions s"
  by (induction cs arbitrary: s) (simp_all add: register_cell_def)

lemma fold_register_region_regions:
  "regions (fold register_region regs s) = regions s \<and>
   dominoes (fold register_region regs s) = dominoes s \<and>
   max_solutions (fold register_region regs s) = max_solutions s"
  by (induction regs arbitrary: s)
    (simp_all add: register_region_def Let_def fold_register_cell_regions)

lemma fold_fix_pointer_regions:
  "regions (fold fix_pointer regs s) = regions s \<and>
   dominoes (fold fix_pointer regs s) = dominoes s \<and>
   max_solutions (fold fix_pointer regs s) = max_solutions s"
  by (induction regs arbitrary: s) (simp_all add: fix_pointer_def)

lemma mk_Solver_config:
  "regions (mk_Solver doms regs r c k) = regs"
  "dominoes (mk_Solver doms regs r c k) = doms"
  "max_solutions (mk_Solver doms regs r c k) = k"
  by (simp_all add: mk_Solver_def fold_fix_pointer_regions fold_register_region_regions)

lemma sound_mk_Solver: "links_exist regs \<Longrightarrow> sound (mk_Solver doms regs r c k)"
  by (simp add: sound_def mk_Solver_config indexed_mk_Solver)

section \<open>The grid dimensions are never consulted\<close>

lemma same_region_of_cell: "same_indexes s s' \<Longrightarrow> region_of_cell s = region_of_cell s'"
  by (simp add: fun_eq_iff region_of_cell_def same_indexes_def)

lemma same_is_region_complete:
  "same_indexes s s' \<Longrightarrow> is_region_complete s = is_region_complete s'"
  by (simp add: fun_eq_iff is_region_complete_def same_indexes_def)

lemma same_get_region_sum: "same_indexes s s' \<Longrightarrow> get_region_sum s = get_region_sum s'"
  by (simp add: fun_eq_iff get_region_sum_def same_indexes_def)

lemma same_get_region_values:
  "same_indexes s s' \<Longrightarrow> get_region_values s = get_region_values s'"
  by (simp add: fun_eq_iff get_region_values_def same_indexes_def)

lemma same_check_constraint:
  assumes "same_indexes s s'"
  shows "check_constraint s = check_constraint s'"
  by (simp only: fun_eq_iff check_constraint_def same_is_region_complete [OF assms]
      same_get_region_sum [OF assms] same_get_region_values [OF assms] simp_thms)

lemma same_verify_all:
  "same_indexes s s' \<Longrightarrow> verify_all s regs cv filled = verify_all s' regs cv filled"
  by (induction regs) (simp_all add: same_check_constraint cong: option.case_cong if_cong)

lemma same_check_affected:
  assumes "same_indexes s s'"
  shows "check_affected s rids nv nf = check_affected s' rids nv nf"
proof (induction rids)
  case Nil
  then show ?case by simp
next
  case (Cons rid rids)
  have "region_by_id s rid = region_by_id s' rid"
    using assms by (simp add: same_indexes_def)
  with Cons show ?case
    by (simp add: same_check_constraint [OF assms] cong: option.case_cong if_cong)
qed

lemma same_choose_cell_loop:
  assumes "same_indexes s s'"
  shows "choose_cell_loop s state xs best m = choose_cell_loop s' state xs best m"
proof (induction xs arbitrary: best m)
  case Nil
  then show ?case by simp
next
  case (Cons x xs)
  have "region_by_id s (region_of_cell s x) = region_by_id s' (region_of_cell s' x)"
    using assms same_region_of_cell [OF assms] by (simp add: same_indexes_def)
  with Cons show ?case by (simp cong: option.case_cong if_cong)
qed

lemma same_choose_cell: "same_indexes s s' \<Longrightarrow> choose_cell s = choose_cell s'"
  using same_choose_cell_loop [of s s']
  by (simp add: fun_eq_iff choose_cell_def same_indexes_def)

lemma same_get_adjacent: "same_indexes s s' \<Longrightarrow> get_adjacent s = get_adjacent s'"
  by (simp add: fun_eq_iff get_adjacent_def same_indexes_def)

lemma same_extends_imp:
  assumes "same_indexes s s'" and "extends s state state'"
  shows "extends s' state state'"
  using assms(2)
proof (cases rule: extends.cases)
  case (place cell d adj pips new_values new_filled)
  have eq: "all_cells s = all_cells s'" "dominoes s = dominoes s'"
    "cell_to_region s = cell_to_region s'"
    using assms(1) by (simp_all add: same_indexes_def)
  note fn = same_choose_cell [OF assms(1)] same_get_adjacent [OF assms(1)]
    same_region_of_cell [OF assms(1)]
  have 1: "card (filled_cells state) \<noteq> length (all_cells s')" using place(2) eq by simp
  have 2: "choose_cell s' state = Some cell" using place(3) fn by simp
  have 3: "d \<in> set (dominoes s')" using place(5) eq by simp
  have 4: "adj \<in> set (get_adjacent s' cell)" using place(7) fn by simp
  have 5: "cell_to_region s' cell \<noteq> None" "cell_to_region s' adj \<noteq> None"
    using place(9,10) eq by simp_all
  have 6: "check_affected s' (affected_regions (region_of_cell s' cell) (region_of_cell s' adj))
      new_values new_filled = Some True"
    using place(14) fn same_check_affected [OF assms(1)] by simp
  show ?thesis
    unfolding place(1)
    by (rule extends.place [OF 1 2 place(4) 3 place(6) 4 place(8) 5 place(11,12,13) 6])
qed

lemma same_indexes_sym: "same_indexes s s' \<Longrightarrow> same_indexes s' s"
  by (simp add: same_indexes_def)

lemma same_extends: "same_indexes s s' \<Longrightarrow> extends s = extends s'"
  by (auto simp: fun_eq_iff intro: same_extends_imp same_indexes_sym)

lemma same_true_solutions:
  assumes "same_indexes s s'"
  shows "true_solutions s = true_solutions s'"
proof -
  have "accepted s = accepted s'"
    using assms same_verify_all [OF assms]
    by (simp add: fun_eq_iff accepted_def same_indexes_def)
  then show ?thesis
    by (simp add: true_solutions_def accepted_below_def same_extends [OF assms])
qed

lemma same_capped:
  "max_solutions s = max_solutions s' \<Longrightarrow> capped s = capped s'"
  by (simp add: fun_eq_iff capped_def)

lemma same_backtrack:
  "same_indexes s s' \<Longrightarrow> max_solutions s = max_solutions s' \<Longrightarrow>
     backtrack s found state = backtrack s' found state"
proof (induction s found state rule: backtrack.induct)
  case (1 s found state)
  note same = \<open>same_indexes s s'\<close> and mx = \<open>max_solutions s = max_solutions s'\<close>
  note cp = same_capped [OF mx]
  have eq: "all_cells s' = all_cells s" "dominoes s' = dominoes s"
    "cell_to_region s' = cell_to_region s" "regions s' = regions s"
    using same by (simp_all add: same_indexes_def)
  show ?case
  proof (cases "\<not> capped s found \<and> card (filled_cells state) \<noteq> length (all_cells s) \<and>
      (\<exists>cell. choose_cell s state = Some cell \<and> \<not> fst cell < 0)")
    case False
    then show ?thesis
      unfolding backtrack_unfold [of s' found state] backtrack_unfold [of s found state]
      by (auto simp: eq cp [symmetric] same_choose_cell [OF same, symmetric]
          same_verify_all [OF same, symmetric] split: option.splits)
  next
    case True
    then obtain cell where nc: "\<not> capped s found"
      and inc: "card (filled_cells state) \<noteq> length (all_cells s)"
      and cell: "choose_cell s state = Some cell" and nonneg: "\<not> fst cell < 0"
      by blast
    have L3: "try_orientation s state cell d adj pips acc = try_orientation s' state cell d adj pips acc"
      if "d \<in> set (dominoes s)" "d \<notin> used_dominoes state"
        "adj \<in> set (get_adjacent s cell)" "adj \<notin> filled_cells state"
        "\<not> (cell_to_region s cell = None \<or> cell_to_region s adj = None)"
        "pips \<in> set (orientations d)"
      for d adj pips acc
    proof -
      let ?nv = "map_assign (map_assign (cell_values state) cell (fst pips)) adj (snd pips)"
      let ?nf = "insert adj (insert cell (filled_cells state))"
      show ?thesis
      proof (cases "check_affected s
          (affected_regions (region_of_cell s cell) (region_of_cell s adj)) ?nv ?nf = Some True")
        case True
        have tt: "\<not> \<not> True" by simp
        from "1.IH" [OF nc inc cell nonneg that(1,2,3,4,5,6) refl refl True tt same mx, of acc]
        show ?thesis using True
          by (simp add: try_orientation_def Let_def cp [symmetric]
              same_region_of_cell [OF same, symmetric]
              same_check_affected [OF same, symmetric] cong: option.case_cong)
      next
        case False
        then show ?thesis
          by (auto simp: try_orientation_def Let_def
              same_region_of_cell [OF same, symmetric]
              same_check_affected [OF same, symmetric] split: option.splits)
      qed
    qed
    have L2: "try_adjacent s state cell d adj acc = try_adjacent s' state cell d adj acc"
      if "d \<in> set (dominoes s)" "d \<notin> used_dominoes state" "adj \<in> set (get_adjacent s cell)"
      for d adj acc
      unfolding try_adjacent_def eq
      using L3 [OF that] by (auto intro!: for_each_cong)
    have L1: "try_domino s state cell d acc = try_domino s' state cell d acc"
      if "d \<in> set (dominoes s)" for d acc
      unfolding try_domino_def same_get_adjacent [OF same, symmetric]
      using L2 [OF that] by (auto intro!: for_each_cong)
    have "for_each (dominoes s) (try_domino s state cell) found =
        for_each (dominoes s) (try_domino s' state cell) found"
      by (rule for_each_cong) (simp_all add: L1)
    with nc inc cell nonneg show ?thesis
      unfolding backtrack_unfold [of s' found state] backtrack_unfold [of s found state]
      by (simp add: eq cp [symmetric] same_choose_cell [OF same, symmetric])
  qed
qed

lemma fold_related:
  assumes "\<And>x s s'. R s s' \<Longrightarrow> R (f x s) (f x s')" and "R s s'"
  shows "R (fold f xs s) (fold f xs s')"
  using assms(2) by (induction xs arbitrary: s s') (simp_all add: assms(1))

lemma same_register_region:
  assumes "same_indexes s s'"
  shows "same_indexes (register_region reg s) (register_region reg s')"
proof -
  have "same_indexes (fold (register_cell reg) cs s) (fold (register_cell reg) cs s')" for cs
    using assms by (rule fold_related [rotated]) (simp add: same_indexes_def register_cell_def)
  then show ?thesis
    by (simp add: register_region_def Let_def same_indexes_def)
qed

lemma same_mk_Solver:
  "same_indexes (mk_Solver doms regs r c k) (mk_Solver doms regs r' c' k')"
  unfolding mk_Solver_def
proof (rule fold_related)
  show "same_indexes (fix_pointer x s) (fix_pointer x s')" if "same_indexes s s'" for x s s'
    using that by (simp add: same_indexes_def fix_pointer_def)
  show "same_indexes
     (fold register_region regs
       \<lparr>dominoes = doms, regions = regs, rows = r, cols = c, max_solutions = k,
          cell_to_region = Map.empty, region_by_id = Map.empty, all_cells = []\<rparr>)
     (fold register_region regs
       \<lparr>dominoes = doms, regions = regs, rows = r', cols = c', max_solutions = k',
          cell_to_region = Map.empty, region_by_id = Map.empty, all_cells = []\<rparr>)"
  proof (rule fold_related)
    show "same_indexes (register_region x s) (register_region x s')"
      if "same_indexes s s'" for x s s'
      using that by (rule same_register_region)
    show "same_indexes
       \<lparr>dominoes = doms, regions = regs, rows = r, cols = c, max_solutions = k,
          cell_to_region = Map.empty, region_by_id = Map.empty, all_cells = []\<rparr>
       \<lparr>dominoes = doms, regions = regs, rows = r', cols = c', max_solutions = k',
          cell_to_region = Map.empty, region_by_id = Map.empty, all_cells = []\<rparr>"
      by (simp add: same_indexes_def)
  qed
qed

text \<open>
  C5 fails on the code: the constructor and \<open>solve\<close> validate nothing. On a 2 by 2 grid
  whose only region is the bottom row, the two cells of the top row are in no region, and
  \<open>solve\<close> reports the count 2.
\<close>

theorem malformed_configuration_counted:
  "malformed [ex_bottom] 2 2 \<and>
   map_option fst (solve (mk_Solver ex_dominoes [ex_bottom] 2 2 3)) = Some 2"
proof -
  have "(0, 0) \<in> grid_cells 2 2" by (simp add: grid_cells_def)
  moreover have "\<forall>reg\<in>set [ex_bottom]. (0, 0) \<notin> set (cells reg)"
    by (simp add: ex_bottom_def)
  ultimately have "malformed [ex_bottom] 2 2" unfolding malformed_def by blast
  moreover have "map_option fst (solve (mk_Solver ex_dominoes [ex_bottom] 2 2 3)) = Some 2"
    by code_simp
  ultimately show ?thesis by simp
qed

text \<open>
  C5, amended. No configuration is rejected before the search: the constructor accepts
  every region list, the cells that the solver searches are exactly the member cells of
  the regions (a grid cell in no region is never visited, a region cell outside the
  declared grid is searched like any other), and the declared grid dimensions have no
  influence on what \<open>solve\<close> returns.
\<close>

theorem solve_ignores_grid:
  "solve (mk_Solver doms regs r c k) = solve (mk_Solver doms regs r' c' k) \<and>
   set (all_cells (mk_Solver doms regs r c k)) = (\<Union>reg\<in>set regs. set (cells reg))"
proof -
  have "backtrack (mk_Solver doms regs r c k) no_solutions initial =
      backtrack (mk_Solver doms regs r' c' k) no_solutions initial"
    by (rule same_backtrack) (simp_all add: same_mk_Solver mk_Solver_config)
  then have "solve (mk_Solver doms regs r c k) = solve (mk_Solver doms regs r' c' k)"
    by (simp add: solve_def)
  moreover have "set (all_cells (mk_Solver doms regs r c k)) = (\<Union>reg\<in>set regs. set (cells reg))"
    using indexed_mk_Solver [of regs doms r c k] unfolding indexed_def by blast
  ultimately show ?thesis by simp
qed

theorem solve_ignores_grid_witness:
  "solve (mk_Solver ex_dominoes [ex_bottom] 2 2 3) = solve (mk_Solver ex_dominoes [ex_bottom] 1 7 3) \<and>
   set (all_cells (mk_Solver ex_dominoes [ex_bottom] 2 2 3)) = {(1, 0), (1, 1)}"
  using solve_ignores_grid [of ex_dominoes "[ex_bottom]" 2 2 3 1 7]
  by (simp add: ex_bottom_def)

section \<open>The accepted states of the search tree are the valid layouts\<close>

lemma map_of_map_assign:
  "sorted_wrt (<) (map fst m) \<Longrightarrow> map_of (map_assign m k v) = (map_of m)(k \<mapsto> v)"
proof (induction m k v rule: map_assign.induct)
  case (1 k v)
  then show ?case by simp
next
  case (2 k' v' m k v)
  show ?case
  proof (cases "k < k'")
    case True
    then show ?thesis by (simp add: fun_eq_iff)
  next
    case False
    show ?thesis
    proof (cases "k = k'")
      case True
      then show ?thesis by (simp add: fun_eq_iff)
    next
      case ne: False
      with False 2 show ?thesis by (auto simp: fun_eq_iff)
    qed
  qed
qed

lemma wrap32_pred_cell: "0 \<le> x \<Longrightarrow> x \<le> INT_MAX \<Longrightarrow> wrap32 (x - 1) = x - 1"
  by (rule wrap32_representable) (simp add: representable_def INT_MIN_def INT_MAX_def)

lemma wrap32_succ_cell:
  assumes "0 \<le> x" and "x \<le> INT_MAX"
  shows "wrap32 (x + 1) = x + 1 \<or> (wrap32 (x + 1) < 0 \<and> INT_MAX < x + 1)"
proof (cases "x = INT_MAX")
  case True
  then show ?thesis by (simp add: wrap32_def INT_MAX_def)
next
  case False
  with assms have "representable (x + 1)"
    by (simp add: representable_def INT_MIN_def INT_MAX_def)
  then show ?thesis by (simp add: wrap32_representable)
qed

lemma get_adjacent_adjacent:
  assumes rng: "\<forall>c\<in>set (all_cells s).
      0 \<le> fst c \<and> fst c \<le> INT_MAX \<and> 0 \<le> snd c \<and> snd c \<le> INT_MAX"
    and cell: "cell \<in> set (all_cells s)"
  shows "adj \<in> set (get_adjacent s cell) \<longleftrightarrow> adjacent cell adj \<and> adj \<in> set (all_cells s)"
proof -
  obtain r c where rc: "cell = (r, c)" by (cases cell)
  from rng cell rc have r: "0 \<le> r" "r \<le> INT_MAX" and c: "0 \<le> c" "c \<le> INT_MAX"
    by fastforce+
  have m: "adj \<in> set (get_adjacent s cell) \<longleftrightarrow>
      adj \<in> set (all_cells s) \<and>
      (adj = (wrap32 (r - 1), c) \<or> adj = (wrap32 (r + 1), c) \<or>
       adj = (r, wrap32 (c - 1)) \<or> adj = (r, wrap32 (c + 1)))"
    by (auto simp: get_adjacent_def Let_def rc)
  have a: "adjacent cell adj \<longleftrightarrow>
      adj = (r - 1, c) \<or> adj = (r + 1, c) \<or> adj = (r, c - 1) \<or> adj = (r, c + 1)"
    by (simp add: adjacent_def rc)
  have e1: "wrap32 (r - 1) = r - 1" using r by (rule wrap32_pred_cell)
  have e3: "wrap32 (c - 1) = c - 1" using c by (rule wrap32_pred_cell)
  have e2: "adj = (wrap32 (r + 1), c) \<longleftrightarrow> adj = (r + 1, c)" if "adj \<in> set (all_cells s)"
  proof -
    from rng that have "0 \<le> fst adj" "fst adj \<le> INT_MAX" by blast+
    with wrap32_succ_cell [OF r] show ?thesis by auto
  qed
  have e4: "adj = (r, wrap32 (c + 1)) \<longleftrightarrow> adj = (r, c + 1)" if "adj \<in> set (all_cells s)"
  proof -
    from rng that have "0 \<le> snd adj" "snd adj \<le> INT_MAX" by blast+
    with wrap32_succ_cell [OF c] show ?thesis by auto
  qed
  show ?thesis
    unfolding m a e1 e3 using e2 e4 by blast
qed

lemma laid_initial: "laid s initial {}"
  by (simp add: laid_def initial_def)

lemma laidD:
  assumes "laid s st P"
  shows "finite P" and "inj_on piece_tile P" and "piece_tile ` P = used_dominoes st"
    and "used_dominoes st \<subseteq> set (dominoes s)"
    and "\<forall>p\<in>P. adjacent (cell_a p) (cell_b p) \<and>
        (pip_a p, pip_b p) \<in> set (orientations (piece_tile p)) \<and>
        map_of (cell_values st) (cell_a p) = Some (pip_a p) \<and>
        map_of (cell_values st) (cell_b p) = Some (pip_b p)"
    and "\<forall>p\<in>P. \<forall>q\<in>P. p \<noteq> q \<longrightarrow> piece_cells p \<inter> piece_cells q = {}"
    and "(\<Union>p\<in>P. piece_cells p) = filled_cells st"
    and "filled_cells st \<subseteq> set (all_cells s)"
    and "dom (map_of (cell_values st)) = filled_cells st"
    and "sorted_wrt (<) (map fst (cell_values st))"
  using assms unfolding laid_def by - ((elim conjE, assumption)+)

lemma laid_extends:
  assumes "extends s st st'" and "laid s st P"
    and rng: "\<forall>c\<in>set (all_cells s).
      0 \<le> fst c \<and> fst c \<le> INT_MAX \<and> 0 \<le> snd c \<and> snd c \<le> INT_MAX"
  shows "\<exists>P'. laid s st' P'"
  using assms(1)
proof (cases rule: extends.cases)
  case (place cell d adj pips new_values new_filled)
  from choose_cell_unfilled [OF place(3,4)]
  have cell: "cell \<in> set (all_cells s)" "cell \<notin> filled_cells st" by simp_all
  from place(7) have adj: "adjacent cell adj" "adj \<in> set (all_cells s)"
    by (simp_all add: get_adjacent_adjacent [OF rng cell(1)])
  from get_adjacent_cells [OF place(7)] have ne: "adj \<noteq> cell" by simp
  let ?p = "\<lparr>piece_tile = d, cell_a = cell, cell_b = adj, pip_a = fst pips, pip_b = snd pips\<rparr>"
  note P = laidD [OF assms(2)]
  have st': "used_dominoes st' = insert d (used_dominoes st)"
    "filled_cells st' = insert adj (insert cell (filled_cells st))"
    "cell_values st' = new_values"
    by (simp_all add: place(1) place(13) new_state_def)
  have nv: "map_of new_values = ((map_of (cell_values st))(cell \<mapsto> fst pips))(adj \<mapsto> snd pips)"
    unfolding place(12)
    by (simp add: map_of_map_assign map_assign_sorted P(10))
  have old: "cell_a p \<noteq> cell \<and> cell_a p \<noteq> adj \<and> cell_b p \<noteq> cell \<and> cell_b p \<noteq> adj"
    if "p \<in> P" for p
  proof -
    from that P(7) have "piece_cells p \<subseteq> filled_cells st" by blast
    then have "cell_a p \<in> filled_cells st" "cell_b p \<in> filled_cells st"
      by (simp_all add: piece_cells_def)
    with cell(2) place(8) show ?thesis by blast
  qed
  have "laid s st' (insert ?p P)"
    unfolding laid_def st'
  proof (intro conjI)
    show "finite (insert ?p P)" using P(1) by simp
    show "inj_on piece_tile (insert ?p P)"
    proof -
      have "piece_tile ?p \<notin> piece_tile ` P" using P(3) place(6) by simp
      moreover have "?p \<notin> P" using old [of ?p] by auto
      ultimately show ?thesis using P(2) by (simp add: inj_on_insert)
    qed
    show "piece_tile ` insert ?p P = insert d (used_dominoes st)"
      using P(3) by simp
    show "insert d (used_dominoes st) \<subseteq> set (dominoes s)"
      using P(4) place(5) by simp
    show "\<forall>p\<in>insert ?p P. adjacent (cell_a p) (cell_b p) \<and>
        (pip_a p, pip_b p) \<in> set (orientations (piece_tile p)) \<and>
        map_of new_values (cell_a p) = Some (pip_a p) \<and>
        map_of new_values (cell_b p) = Some (pip_b p)"
    proof
      fix p assume "p \<in> insert ?p P"
      then consider "p = ?p" | "p \<in> P" by blast
      then show "adjacent (cell_a p) (cell_b p) \<and>
        (pip_a p, pip_b p) \<in> set (orientations (piece_tile p)) \<and>
        map_of new_values (cell_a p) = Some (pip_a p) \<and>
        map_of new_values (cell_b p) = Some (pip_b p)"
      proof cases
        case 1
        then show ?thesis using adj(1) place(11) ne by (simp add: nv)
      next
        case 2
        from old [OF 2] P(5) 2 show ?thesis by (simp add: nv)
      qed
    qed
    show "\<forall>p\<in>insert ?p P. \<forall>q\<in>insert ?p P. p \<noteq> q \<longrightarrow> piece_cells p \<inter> piece_cells q = {}"
    proof (intro ballI impI)
      fix p q assume pq: "p \<in> insert ?p P" "q \<in> insert ?p P" "p \<noteq> q"
      have new_old: "piece_cells ?p \<inter> piece_cells r = {}" if "r \<in> P" for r
        using old [OF that] by (auto simp: piece_cells_def)
      from pq consider "p = ?p" "q \<in> P" | "p \<in> P" "q = ?p" | "p \<in> P" "q \<in> P" by blast
      then show "piece_cells p \<inter> piece_cells q = {}"
      proof cases
        case 1
        then show ?thesis using new_old by simp
      next
        case 2
        then show ?thesis using new_old [of p] by (simp add: Int_commute)
      next
        case 3
        with P(6) pq(3) show ?thesis by blast
      qed
    qed
    show "(\<Union>p\<in>insert ?p P. piece_cells p) = insert adj (insert cell (filled_cells st))"
      using P(7) by (simp add: piece_cells_def insert_commute)
    show "insert adj (insert cell (filled_cells st)) \<subseteq> set (all_cells s)"
      using P(8) cell(1) adj(2) by simp
    show "dom (map_of new_values) = insert adj (insert cell (filled_cells st))"
      using P(9) by (simp add: nv)
    show "sorted_wrt (<) (map fst new_values)"
      using P(10) by (simp add: place(12) map_assign_sorted)
  qed
  then show ?thesis by blast
qed

lemma reachable_laid:
  assumes rng: "\<forall>c\<in>set (all_cells s).
      0 \<le> fst c \<and> fst c \<le> INT_MAX \<and> 0 \<le> snd c \<and> snd c \<le> INT_MAX"
  shows "reachable s st \<Longrightarrow> \<exists>P. laid s st P"
  unfolding reachable_def
proof (induction rule: rtranclp_induct)
  case base
  show ?case using laid_initial by blast
next
  case (step y z)
  from step.IH obtain P where "laid s y P" by blast
  from laid_extends [OF step.hyps(2) this rng] show ?case .
qed

lemma accepted_valid_layout:
  assumes "distinct (all_cells s)" and "reachable s st" and "accepted s st"
    and rng: "\<forall>c\<in>set (all_cells s).
      0 \<le> fst c \<and> fst c \<le> INT_MAX \<and> 0 \<le> snd c \<and> snd c \<le> INT_MAX"
  shows "valid_layout s (cell_values st)"
proof -
  from reachable_laid [OF rng assms(2)] obtain P where P: "laid s st P" by blast
  then have sub: "filled_cells st \<subseteq> set (all_cells s)" by (simp add: laid_def)
  from assms(3) have crd: "card (filled_cells st) = length (all_cells s)"
    and ver: "verify_all s (regions s) (cell_values st) (filled_cells st) = Some True"
    by (simp_all add: accepted_def)
  from assms(1) have "card (set (all_cells s)) = length (all_cells s)"
    by (rule distinct_card)
  with crd sub have full: "filled_cells st = set (all_cells s)"
    by (metis List.finite_set card_subset_eq)
  note L = laidD [OF P]
  have "tiling s P (map_of (cell_values st))"
    unfolding tiling_def
    using L(1,2,5,6) L(3,4) L(7,9) full by (intro conjI) simp_all
  with L(10) ver full show ?thesis
    unfolding valid_layout_def by auto
qed


lemma fold_region_values:
  "fold (\<lambda>cell vals. case map_of cv cell of Some v \<Rightarrow> vals @ [v] | None \<Rightarrow> vals) xs acc =
     acc @ concat (map (\<lambda>c. case map_of cv c of Some v \<Rightarrow> [v] | None \<Rightarrow> []) xs)"
  by (induction xs arbitrary: acc) (auto split: option.splits)

lemma get_region_values_registered:
  "region_by_id s rid = Some reg \<Longrightarrow> get_region_values s rid cv = Some (region_values cv reg)"
  by (simp add: get_region_values_def fold_region_values region_values_def)

lemma check_constraint_cases:
  assumes "region_by_id s (region_id reg) = Some r0"
  shows "check_constraint s reg cv filled p =
     (case rtype reg of
        SUM_C \<Rightarrow> Some (if set (cells r0) \<subseteq> filled
                        then wrap32 (region_total cv r0) = target_value reg
                        else p \<and> wrap32 (region_total cv r0) \<le> target_value reg)
      | EQUAL_C \<Rightarrow> Some (\<forall>v\<in>set (region_values cv r0). \<forall>w\<in>set (region_values cv r0). v = w)
      | LESS_C \<Rightarrow>
          (if \<not> set (cells r0) \<subseteq> filled then Some p
           else (case region_by_id s (linked_region_id reg) of
                   None \<Rightarrow> None
                 | Some r1 \<Rightarrow>
                     Some (if \<not> set (cells r1) \<subseteq> filled then p
                           else wrap32 (region_total cv r0) < wrap32 (region_total cv r1))))
      | GREATER_C \<Rightarrow>
          (if \<not> set (cells r0) \<subseteq> filled then Some p
           else (case region_by_id s (linked_region_id reg) of
                   None \<Rightarrow> None
                 | Some r1 \<Rightarrow>
                     Some (if \<not> set (cells r1) \<subseteq> filled then p
                           else wrap32 (region_total cv r0) > wrap32 (region_total cv r1)))))"
proof (cases "rtype reg")
  case SUM_C
  then show ?thesis
    using assms
    by (simp add: check_constraint_def is_region_complete_registered get_region_sum_registered)
next
  case EQUAL_C
  have "(case vals of [] \<Rightarrow> Some True | first # x \<Rightarrow> Some (list_all (\<lambda>v. v = first) vals)) =
      Some (\<forall>v\<in>set vals. \<forall>w\<in>set vals. v = w)" for vals :: "int list"
    by (cases vals) (simp_all add: list_all_iff, metis)
  with EQUAL_C show ?thesis
    using assms
    by (simp add: check_constraint_def is_region_complete_registered
        get_region_values_registered)
next
  case LESS_C
  then show ?thesis
    using assms
    by (cases "region_by_id s (linked_region_id reg)")
      (auto simp: check_constraint_def is_region_complete_registered
        get_region_sum_registered is_region_complete_def list_all_iff)
next
  case GREATER_C
  then show ?thesis
    using assms
    by (cases "region_by_id s (linked_region_id reg)")
      (auto simp: check_constraint_def is_region_complete_registered
        get_region_sum_registered is_region_complete_def list_all_iff)
qed

lemma check_constraint_None:
  "region_by_id s (region_id reg) = None \<Longrightarrow> check_constraint s reg cv filled p = None"
  by (simp add: check_constraint_def is_region_complete_def)


lemma partial_of_final:
  assumes fin: "check_constraint s reg cvF F False = Some True"
    and sub: "nf \<subseteq> F"
    and agree: "\<And>c. map_of nv c = (if c \<in> nf then map_of cvF c else None)"
    and nonneg: "\<And>c v. map_of cvF c = Some v \<Longrightarrow> 0 \<le> v"
    and bound: "\<And>i r. region_by_id s i = Some r \<Longrightarrow> region_total cvF r \<le> INT_MAX"
  shows "check_constraint s reg nv nf True = Some True"
proof -
  from fin obtain r0 where r0: "region_by_id s (region_id reg) = Some r0"
    by (cases "region_by_id s (region_id reg)") (simp_all add: check_constraint_None)
  have voz: "cell_value_or_zero nv c = (if c \<in> nf then cell_value_or_zero cvF c else 0)" for c
    by (simp add: cell_value_or_zero_def agree)
  have voz0: "0 \<le> cell_value_or_zero cvF c" for c
    using nonneg [of c] by (auto simp: cell_value_or_zero_def split: option.splits)
  have le: "region_total nv r \<le> region_total cvF r" for r
    unfolding region_total_def
    by (rule sum_list_mono) (simp add: voz voz0)
  have pos: "0 \<le> region_total nv r" for r
    unfolding region_total_def
    by (rule sum_list_nonneg_int) (simp add: voz voz0)
  have wF: "wrap32 (region_total cvF r) = region_total cvF r"
    and wn: "wrap32 (region_total nv r) = region_total nv r"
    if "region_by_id s i = Some r" for i r
  proof -
    from bound [OF that] le [of r] pos [of r]
    have "representable (region_total cvF r)" "representable (region_total nv r)"
      by (simp_all add: representable_def INT_MIN_def INT_MAX_def)
    then show "wrap32 (region_total cvF r) = region_total cvF r"
      and "wrap32 (region_total nv r) = region_total nv r"
      by (simp_all add: wrap32_representable)
  qed
  note fin' = fin [unfolded check_constraint_cases [OF r0]]
  have eq: "region_total nv r = region_total cvF r" if "set (cells r) \<subseteq> nf" for r
    unfolding region_total_def
    using that by (intro arg_cong [where f = sum_list] map_cong refl) (auto simp: voz)
  have vals: "set (region_values nv r) \<subseteq> set (region_values cvF r)" for r
    by (auto simp: region_values_def agree split: option.splits if_splits)
  have full: "set (cells r) \<subseteq> F" if "set (cells r) \<subseteq> nf" for r
    using that sub by blast
  show ?thesis
  proof (cases "rtype reg")
    case SUM_C
    with fin' have "set (cells r0) \<subseteq> F" and t: "region_total cvF r0 = target_value reg"
      by (simp_all add: wF [OF r0] split: if_splits)
    show ?thesis
      unfolding check_constraint_cases [OF r0] wn [OF r0]
      using SUM_C t le [of r0] eq [of r0] by simp
  next
    case EQUAL_C
    with fin' have "\<forall>v\<in>set (region_values cvF r0). \<forall>w\<in>set (region_values cvF r0). v = w"
      by simp
    with vals [of r0] have "\<forall>v\<in>set (region_values nv r0). \<forall>w\<in>set (region_values nv r0). v = w"
      by blast
    then show ?thesis
      unfolding check_constraint_cases [OF r0] using EQUAL_C by simp
  next
    case LESS_C
    with fin' obtain r1 where r1: "region_by_id s (linked_region_id reg) = Some r1"
      and lt: "wrap32 (region_total cvF r0) < wrap32 (region_total cvF r1)"
      by (auto split: if_splits option.splits)
    from lt have lt': "region_total cvF r0 < region_total cvF r1"
      by (simp add: wF [OF r0] wF [OF r1])
    show ?thesis
      unfolding check_constraint_cases [OF r0] wn [OF r0] r1 option.case wn [OF r1]
      using LESS_C lt' eq [of r0] eq [of r1] by simp
  next
    case GREATER_C
    with fin' obtain r1 where r1: "region_by_id s (linked_region_id reg) = Some r1"
      and lt: "wrap32 (region_total cvF r0) > wrap32 (region_total cvF r1)"
      by (auto split: if_splits option.splits)
    from lt have lt': "region_total cvF r0 > region_total cvF r1"
      by (simp add: wF [OF r0] wF [OF r1])
    show ?thesis
      unfolding check_constraint_cases [OF r0] wn [OF r0] r1 option.case wn [OF r1]
      using GREATER_C lt' eq [of r0] eq [of r1] by simp
  qed
qed

lemma verify_all_True:
  "verify_all s regs cv filled = Some True \<Longrightarrow> reg \<in> set regs \<Longrightarrow>
     check_constraint s reg cv filled False = Some True"
  by (induction regs) (auto split: option.splits if_splits)

lemma check_affected_True:
  "\<forall>rid\<in>set rids. \<exists>reg. region_by_id s rid = Some reg \<and>
       check_constraint s reg nv nf True = Some True \<Longrightarrow>
     check_affected s rids nv nf = Some True"
  by (induction rids) auto

lemma orientations_swap: "(a, b) \<in> set (orientations d) \<Longrightarrow> (b, a) \<in> set (orientations d)"
  by (auto simp: orientations_def split: if_splits)

lemma orientations_values:
  "(a, b) \<in> set (orientations d) \<Longrightarrow> a \<in> {low d, high d} \<and> b \<in> {low d, high d}"
  by (auto simp: orientations_def split: if_splits)

lemma adjacent_sym: "adjacent a b \<Longrightarrow> adjacent b a"
  by (cases a, cases b) (auto simp: adjacent_def)

lemma sorted_alist_unique:
  assumes "sorted_wrt (<) (map fst xs)" and "sorted_wrt (<) (map fst ys)"
    and "map_of xs = map_of ys"
  shows "xs = (ys :: CellValues)"
proof -
  have d: "distinct (map fst xs)" "distinct (map fst ys)"
    using assms(1,2) by (simp_all add: strict_sorted_iff)
  with assms(3) have set: "set xs = set ys" by (simp add: map_of_inject_set)
  have srt: "sorted_wrt (<) zs" if "sorted_wrt (<) (map fst zs)" for zs :: CellValues
    using that
    by (simp add: sorted_wrt_map) (erule sorted_wrt_mono_rel [rotated], auto simp: less_prod_def)
  from srt [OF assms(1)] srt [OF assms(2)] have "sorted xs" "distinct xs" "sorted ys" "distinct ys"
    by (simp_all add: strict_sorted_iff)
  with set show ?thesis by (intro sorted_distinct_set_unique)
qed


lemma tilingD:
  assumes "tiling s P V"
  shows "finite P" and "inj_on piece_tile P" and "piece_tile ` P \<subseteq> set (dominoes s)"
    and "\<forall>p\<in>P. adjacent (cell_a p) (cell_b p) \<and>
        (pip_a p, pip_b p) \<in> set (orientations (piece_tile p)) \<and>
        V (cell_a p) = Some (pip_a p) \<and> V (cell_b p) = Some (pip_b p)"
    and "\<forall>p\<in>P. \<forall>q\<in>P. p \<noteq> q \<longrightarrow> piece_cells p \<inter> piece_cells q = {}"
    and "(\<Union>p\<in>P. piece_cells p) = set (all_cells s)"
    and "dom V = set (all_cells s)"
  using assms unfolding tiling_def by - ((elim conjE, assumption)+)

lemma conformingD:
  assumes "conforming s"
  shows "sound s"
    and "\<forall>d\<in>set (dominoes s). 0 \<le> low d \<and> 0 \<le> high d"
    and "\<forall>c\<in>set (all_cells s).
      0 \<le> fst c \<and> fst c \<le> INT_MAX \<and> 0 \<le> snd c \<and> snd c \<le> INT_MAX"
    and "\<forall>reg\<in>set (regions s). int (length (cells reg)) < INT_MAX"
    and "\<forall>reg\<in>set (regions s). \<forall>d\<in>set (dominoes s).
      int (length (cells reg)) * low d \<le> INT_MAX \<and>
      int (length (cells reg)) * high d \<le> INT_MAX"
  using assms unfolding conforming_def by - ((elim conjE, assumption)+)

lemma conforming_indexed: "conforming s \<Longrightarrow> indexed (regions s) s"
  by (simp add: conforming_def sound_def)

lemma adjacent_ne: "adjacent a b \<Longrightarrow> a \<noteq> b"
  by (cases a, cases b) (auto simp: adjacent_def)

lemma tiling_value:
  assumes "tiling s P V" and "V c = Some v"
  shows "\<exists>d\<in>set (dominoes s). v = low d \<or> v = high d"
proof -
  note T = tilingD [OF assms(1)]
  from assms(2) T(7) have "c \<in> set (all_cells s)" by auto
  with T(6) obtain p where p: "p \<in> P" "c \<in> piece_cells p" by blast
  from T(3) p(1) have d: "piece_tile p \<in> set (dominoes s)" by blast
  from T(4) p(1) have o: "(pip_a p, pip_b p) \<in> set (orientations (piece_tile p))"
    and va: "V (cell_a p) = Some (pip_a p)" and vb: "V (cell_b p) = Some (pip_b p)" by blast+
  from orientations_values [OF o]
  have "pip_a p \<in> {low (piece_tile p), high (piece_tile p)}"
    "pip_b p \<in> {low (piece_tile p), high (piece_tile p)}" by simp_all
  moreover from p(2) va vb assms(2) have "v = pip_a p \<or> v = pip_b p"
    by (auto simp: piece_cells_def)
  ultimately have "v = low (piece_tile p) \<or> v = high (piece_tile p)" by auto
  with d show ?thesis by blast
qed

lemma tiling_nonneg:
  assumes "tiling s P V" and "\<forall>d\<in>set (dominoes s). 0 \<le> low d \<and> 0 \<le> high d"
    and "V c = Some v"
  shows "0 \<le> v"
  using tiling_value [OF assms(1,3)] assms(2) by auto

lemma tiling_total_bounded:
  assumes til: "tiling s P (map_of cv)"
    and small: "\<forall>d\<in>set (dominoes s).
      int (length (cells reg)) * low d \<le> INT_MAX \<and>
      int (length (cells reg)) * high d \<le> INT_MAX"
  shows "region_total cv reg \<le> INT_MAX"
  unfolding region_total_def
proof (rule sum_list_bounded)
  show "0 \<le> INT_MAX" by (simp add: INT_MAX_def)
next
  fix x assume "x \<in> set (cells reg)"
  show "int (length (cells reg)) * cell_value_or_zero cv x \<le> INT_MAX"
  proof (cases "map_of cv x")
    case None
    then show ?thesis by (simp add: cell_value_or_zero_def INT_MAX_def)
  next
    case (Some v)
    from tiling_value [OF til Some] small Some show ?thesis
      by (auto simp: cell_value_or_zero_def)
  qed
qed

lemma agrees_step:
  assumes conf: "conforming s" and til: "tiling s P V"
    and ver: "verify_all s (regions s) cv (set (all_cells s)) = Some True"
    and V: "V = map_of cv"
    and ag: "agrees P V st S"
    and inc: "filled_cells st \<noteq> set (all_cells s)"
  shows "\<exists>st' p. extends s st st' \<and> p \<in> P \<and> p \<notin> S \<and> agrees P V st' (insert p S)"
proof -
  note T = tilingD [OF til] and C = conformingD [OF conf]
  note ix = conforming_indexed [OF conf]
  from ag have S: "S \<subseteq> P" and fil: "filled_cells st = (\<Union>p\<in>S. piece_cells p)"
    and used: "used_dominoes st = piece_tile ` S"
    and val: "\<And>c. map_of (cell_values st) c = (if c \<in> filled_cells st then V c else None)"
    and srt: "sorted_wrt (<) (map fst (cell_values st))"
    unfolding agrees_def by blast+
  have F: "set (all_cells s) = (\<Union>p\<in>P. piece_cells p)" using T(6) by simp
  from ix have dist: "distinct (all_cells s)" and domc: "dom (cell_to_region s) = set (all_cells s)"
    unfolding indexed_def by blast+
  have sub: "filled_cells st \<subseteq> set (all_cells s)" unfolding fil F using S by blast
  with inc obtain u where "u \<in> set (all_cells s)" "u \<notin> filled_cells st" by blast
  then have "\<exists>u\<in>set (all_cells s). u \<notin> filled_cells st" by blast
  from choose_cell_selects [OF ix C(4) this]
  obtain cell where ch: "choose_cell s st = Some cell"
    and cellF: "cell \<in> set (all_cells s)" and celln: "cell \<notin> filled_cells st" by blast
  from C(3) cellF have nonneg: "\<not> fst cell < 0" by fastforce
  from cellF F obtain p where p: "p \<in> P" "cell \<in> piece_cells p" by blast
  have pS: "p \<notin> S" using celln p(2) fil by blast
  from T(4) p(1) have adjp: "adjacent (cell_a p) (cell_b p)"
    and op: "(pip_a p, pip_b p) \<in> set (orientations (piece_tile p))"
    and va: "V (cell_a p) = Some (pip_a p)" and vb: "V (cell_b p) = Some (pip_b p)" by blast+
  define adj where "adj = (if cell = cell_a p then cell_b p else cell_a p)"
  define pips where "pips = (if cell = cell_a p then (pip_a p, pip_b p) else (pip_b p, pip_a p))"
  have ab: "cell_a p \<noteq> cell_b p" using adjp by (rule adjacent_ne)
  have pc: "piece_cells p = {cell, adj}"
    using p(2) by (auto simp: adj_def piece_cells_def)
  have adj_ne: "adj \<noteq> cell" using ab p(2) by (auto simp: adj_def piece_cells_def)
  have adjc: "adjacent cell adj"
    using adjp adjacent_sym [OF adjp] p(2) by (auto simp: adj_def piece_cells_def)
  have adjF: "adj \<in> set (all_cells s)" using p(1) pc F by blast
  have o: "pips \<in> set (orientations (piece_tile p))"
    using op orientations_swap [OF op] by (simp add: pips_def)
  have vc: "V cell = Some (fst pips)" and vadj: "V adj = Some (snd pips)"
    using va vb p(2) ab by (auto simp: pips_def adj_def piece_cells_def)
  have adjn: "adj \<notin> filled_cells st"
  proof
    assume "adj \<in> filled_cells st"
    with fil obtain q where q: "q \<in> S" "adj \<in> piece_cells q" by blast
    with pS have "p \<noteq> q" by blast
    moreover from q(1) S have "q \<in> P" by blast
    ultimately have "piece_cells p \<inter> piece_cells q = {}" using T(5) p(1) by blast
    with q(2) pc show False by blast
  qed
  have dn: "piece_tile p \<notin> used_dominoes st"
  proof
    assume "piece_tile p \<in> used_dominoes st"
    with used obtain q where q: "q \<in> S" "piece_tile q = piece_tile p" by auto
    with S T(2) p(1) have "q = p" by (auto dest: inj_onD)
    with q(1) pS show False by simp
  qed
  have dd: "piece_tile p \<in> set (dominoes s)" using T(3) p(1) by blast
  have g: "adj \<in> set (get_adjacent s cell)"
    using adjc adjF by (simp add: get_adjacent_adjacent [OF C(3) cellF])
  have c2r: "cell_to_region s cell \<noteq> None" "cell_to_region s adj \<noteq> None"
    using domc cellF adjF by auto
  let ?nv = "map_assign (map_assign (cell_values st) cell (fst pips)) adj (snd pips)"
  let ?nf = "insert adj (insert cell (filled_cells st))"
  have nv: "map_of ?nv = ((map_of (cell_values st))(cell \<mapsto> fst pips))(adj \<mapsto> snd pips)"
    by (simp add: map_of_map_assign map_assign_sorted srt)
  have nvV: "map_of ?nv c = (if c \<in> ?nf then map_of cv c else None)" for c
    using val [of c] vc vadj by (auto simp: nv V)
  have nfF: "?nf \<subseteq> set (all_cells s)" using sub cellF adjF by simp
  have pos: "\<And>c v. map_of cv c = Some v \<Longrightarrow> 0 \<le> v"
    using tiling_nonneg [OF til C(2)] by (simp add: V)
  have bnd: "region_total cv r \<le> INT_MAX" if "region_by_id s i = Some r" for i r
  proof -
    from indexed_registered [OF ix that] have "r \<in> set (regions s)" by simp
    with C(5) have "\<forall>d\<in>set (dominoes s).
        int (length (cells r)) * low d \<le> INT_MAX \<and> int (length (cells r)) * high d \<le> INT_MAX"
      by blast
    with til show ?thesis unfolding V by (rule tiling_total_bounded)
  qed
  have chk1: "\<exists>reg. region_by_id s (region_of_cell s c) = Some reg \<and>
      check_constraint s reg ?nv ?nf True = Some True"
    if "cell_to_region s c \<noteq> None" for c
  proof -
    from sound_region_of_cell [OF C(1) that] obtain reg where
      reg: "region_by_id s (region_of_cell s c) = Some reg" by blast
    from indexed_registered [OF ix reg] have "reg \<in> set (regions s)" by simp
    from verify_all_True [OF ver this]
    have "check_constraint s reg cv (set (all_cells s)) False = Some True" .
    from partial_of_final [OF this nfF nvV pos bnd] reg show ?thesis by simp
  qed
  have chk: "check_affected s (affected_regions (region_of_cell s cell) (region_of_cell s adj))
      ?nv ?nf = Some True"
    by (rule check_affected_True) (use chk1 [OF c2r(1)] chk1 [OF c2r(2)] in
        \<open>auto simp: affected_regions_def\<close>)
  have card_ne: "card (filled_cells st) \<noteq> length (all_cells s)"
  proof -
    from sub inc have "filled_cells st \<subset> set (all_cells s)" by blast
    then have "card (filled_cells st) < card (set (all_cells s))"
      by (intro psubset_card_mono) simp_all
    with dist show ?thesis by (simp add: distinct_card)
  qed
  let ?st' = "new_state st (piece_tile p) cell adj ?nv ?nf"
  have ext: "extends s st ?st'"
    by (rule extends.place [OF card_ne ch nonneg dd dn g adjn c2r o refl refl chk])
  have "agrees P V ?st' (insert p S)"
    unfolding agrees_def
  proof (intro conjI)
    show "insert p S \<subseteq> P" using S p(1) by simp
    show "filled_cells ?st' = (\<Union>q\<in>insert p S. piece_cells q)"
      using fil pc by (auto simp: new_state_def)
    show "used_dominoes ?st' = piece_tile ` insert p S"
      using used by (simp add: new_state_def)
    show "\<forall>c. map_of (cell_values ?st') c = (if c \<in> filled_cells ?st' then V c else None)"
      using nvV by (simp add: new_state_def V)
    show "sorted_wrt (<) (map fst (cell_values ?st'))"
      using srt by (simp add: new_state_def map_assign_sorted)
  qed
  with ext p(1) pS show ?thesis by blast
qed


lemma agrees_complete:
  assumes conf: "conforming s" and til: "tiling s P V"
    and ver: "verify_all s (regions s) cv (set (all_cells s)) = Some True"
    and V: "V = map_of cv" and srtcv: "sorted_wrt (<) (map fst cv)"
  shows "agrees P V st S \<Longrightarrow>
     \<exists>st'. (extends s)\<^sup>*\<^sup>* st st' \<and> accepted s st' \<and> cell_values st' = cv"
proof (induction "card (P - S)" arbitrary: st S rule: less_induct)
  case less
  note T = tilingD [OF til]
  from conforming_indexed [OF conf] have dist: "distinct (all_cells s)"
    unfolding indexed_def by blast
  show ?case
  proof (cases "filled_cells st = set (all_cells s)")
    case True
    from less.prems have val:
      "\<And>c. map_of (cell_values st) c = (if c \<in> filled_cells st then V c else None)"
      and srt: "sorted_wrt (<) (map fst (cell_values st))"
      unfolding agrees_def by blast+
    have "map_of (cell_values st) c = map_of cv c" for c
    proof (cases "c \<in> set (all_cells s)")
      case True
      with val [of c] \<open>filled_cells st = set (all_cells s)\<close> show ?thesis by (simp add: V)
    next
      case False
      with T(7) have "map_of cv c = None" unfolding V by blast
      with val [of c] False \<open>filled_cells st = set (all_cells s)\<close> show ?thesis by simp
    qed
    then have "map_of (cell_values st) = map_of cv" by (simp add: fun_eq_iff)
    with srt srtcv have eq: "cell_values st = cv" by (intro sorted_alist_unique)
    have "accepted s st"
      unfolding accepted_def using True dist ver eq by (simp add: distinct_card)
    with eq show ?thesis by blast
  next
    case False
    from agrees_step [OF conf til ver V less.prems False]
    obtain st1 p where ext: "extends s st st1" and p: "p \<in> P" "p \<notin> S"
      and ag: "agrees P V st1 (insert p S)" by blast
    have "P - insert p S \<subset> P - S" using p by blast
    then have "card (P - insert p S) < card (P - S)"
      using T(1) by (intro psubset_card_mono) simp_all
    from less.hyps [OF this ag] obtain st' where
      "(extends s)\<^sup>*\<^sup>* st1 st'" "accepted s st'" "cell_values st' = cv" by blast
    with ext show ?thesis by (blast intro: converse_rtranclp_into_rtranclp)
  qed
qed

lemma true_solutions_valid_layouts:
  assumes "conforming s"
  shows "true_solutions s = {cv. valid_layout s cv}"
proof (intro set_eqI iffI)
  fix cv assume "cv \<in> true_solutions s"
  then obtain st where "(extends s)\<^sup>*\<^sup>* initial st" "accepted s st" "cv = cell_values st"
    by (auto simp: true_solutions_def accepted_below_def)
  moreover from conforming_indexed [OF assms] have "distinct (all_cells s)"
    unfolding indexed_def by blast
  ultimately show "cv \<in> {cv. valid_layout s cv}"
    using accepted_valid_layout [of s st] conformingD(3) [OF assms] by (simp add: reachable_def)
next
  fix cv assume "cv \<in> {cv. valid_layout s cv}"
  then obtain P where til: "tiling s P (map_of cv)"
    and srt: "sorted_wrt (<) (map fst cv)"
    and ver: "verify_all s (regions s) cv (set (all_cells s)) = Some True"
    by (auto simp: valid_layout_def)
  have "agrees P (map_of cv) initial {}"
    by (simp add: agrees_def initial_def)
  from agrees_complete [OF assms til ver refl srt this]
  show "cv \<in> true_solutions s"
    by (auto simp: true_solutions_def accepted_below_def)
qed


lemma conforming_mk_Solver:
  assumes "well_formed doms regs"
  shows "conforming (mk_Solver doms regs r c k)"
proof -
  from assms have lk: "links_exist regs"
    and d: "\<forall>d\<in>set doms. 0 \<le> low d \<and> 0 \<le> high d"
    and rw: "\<forall>reg\<in>set regs. \<forall>c\<in>set (cells reg).
        0 \<le> fst c \<and> fst c \<le> INT_MAX \<and> 0 \<le> snd c \<and> snd c \<le> INT_MAX"
    and sz: "\<forall>reg\<in>set regs. int (length (cells reg)) < INT_MAX"
    and sm: "\<forall>reg\<in>set regs. \<forall>d\<in>set doms.
        int (length (cells reg)) * low d \<le> INT_MAX \<and>
        int (length (cells reg)) * high d \<le> INT_MAX"
    unfolding well_formed_def by blast+
  have "set (all_cells (mk_Solver doms regs r c k)) = (\<Union>reg\<in>set regs. set (cells reg))"
    using indexed_mk_Solver [of regs doms r c k] unfolding indexed_def by blast
  with rw have "\<forall>c\<in>set (all_cells (mk_Solver doms regs r c k)).
      0 \<le> fst c \<and> fst c \<le> INT_MAX \<and> 0 \<le> snd c \<and> snd c \<le> INT_MAX" by blast
  with sound_mk_Solver [OF lk, of doms r c k] d sz sm show ?thesis
    unfolding conforming_def mk_Solver_config by (intro conjI)
qed
section \<open>Cap, deduplication and the output slot\<close>

text \<open>
  C1. The true number of distinct solutions of a configuration is the number of distinct
  signatures of the accepted states of its search tree, \<open>solution_count\<close>; it depends on
  the tiles and the regions only. With a cap \<open>k\<close> from 1 to \<open>INT_MAX\<close>, whatever count
  \<open>solve\<close> returns is at most \<open>k\<close>, and it is the true number whenever that is at most
  \<open>k\<close>; in general it is the smaller of the two. When every LESS or GREATER region links
  to a region of the list, \<open>solve\<close> does return a count. For a well-formed configuration
  the true number is the number of valid layouts, that is of the cell-value maps of the
  tilings of the grid that satisfy every region; well-formed means that the links exist,
  that the pips and the cell coordinates are non-negative values of \<open>int\<close>, that a region
  has fewer than \<open>INT_MAX\<close> cells, and that a region filled with any one pip of the tile
  list sums to at most \<open>INT_MAX\<close>, so that no sum, count or coordinate of the search
  leaves the range of \<open>int\<close>.
\<close>

theorem solve_cap_correct:
  assumes "1 \<le> k" and "k \<le> INT_MAX"
  shows "(\<forall>n found. solve (mk_Solver doms regs r c k) = Some (n, found) \<longrightarrow>
            n \<le> k \<and>
            (int (solution_count doms regs) \<le> k \<longrightarrow> n = int (solution_count doms regs)) \<and>
            n = min k (int (solution_count doms regs))) \<and>
         (links_exist regs \<longrightarrow> (\<exists>n found. solve (mk_Solver doms regs r c k) = Some (n, found))) \<and>
         (well_formed doms regs \<longrightarrow>
            solution_count doms regs = card {cv. valid_layout (mk_Solver doms regs r c k) cv})"
proof -
  let ?s = "mk_Solver doms regs r c k"
  have k: "max_solutions ?s = k" by (simp add: mk_Solver_config)
  have cnt: "solution_count doms regs = card (true_solutions ?s)"
    unfolding solution_count_def by (rule arg_cong [OF same_true_solutions]) (rule same_mk_Solver)
  have "n = min k (int (solution_count doms regs))" if "solve ?s = Some (n, found)" for n found
    using solve_count [of ?s n found] that assms k cnt by simp
  moreover have "\<exists>n found. solve ?s = Some (n, found)" if "links_exist regs"
  proof -
    have "sound ?s" using that by (rule sound_mk_Solver)
    from backtrack_total [OF this, of no_solutions initial]
    show ?thesis by (auto simp: solve_def)
  qed
  moreover have "solution_count doms regs = card {cv. valid_layout ?s cv}"
    if "well_formed doms regs"
    using true_solutions_valid_layouts [OF conforming_mk_Solver [OF that, of r c k]] cnt
    by simp
  ultimately show ?thesis by auto
qed


theorem solve_cap_correct_witness:
  "map_option fst (solve (ex_solver 10)) = Some 4 \<and>
   solution_count ex_dominoes [ex_top, ex_bottom] = 4 \<and>
   card {cv. valid_layout (ex_solver 10) cv} = 4 \<and>
   map_option fst (solve (ex_solver 3)) = Some 3 \<and>
   map_option fst (solve (ex_solver 4)) = Some 4"
proof -
  have a: "map_option fst (solve (ex_solver 10)) = Some 4" by code_simp
  have b: "map_option fst (solve (ex_solver 3)) = Some 3" by code_simp
  have c: "map_option fst (solve (ex_solver 4)) = Some 4" by code_simp
  have i: "(10 :: int) \<le> INT_MAX" by (simp add: INT_MAX_def)
  have w: "well_formed ex_dominoes [ex_top, ex_bottom]"
    by (simp add: well_formed_def links_exist_def ex_dominoes_def ex_top_def ex_bottom_def
        INT_MAX_def)
  from a obtain f where f: "solve (mk_Solver ex_dominoes [ex_top, ex_bottom] 2 2 10) = Some (4, f)"
    by (auto simp: ex_solver_def)
  note t = solve_cap_correct [OF _ i, of ex_dominoes "[ex_top, ex_bottom]" 2 2]
  from t f have "(4 :: int) = min 10 (int (solution_count ex_dominoes [ex_top, ex_bottom]))"
    by simp
  then have n: "solution_count ex_dominoes [ex_top, ex_bottom] = 4"
    by (auto simp: min_def split: if_splits)
  from t w have "solution_count ex_dominoes [ex_top, ex_bottom] =
      card {cv. valid_layout (ex_solver 10) cv}"
    by (simp add: ex_solver_def)
  with n have "card {cv. valid_layout (ex_solver 10) cv} = 4" by simp
  with n a b c show ?thesis by simp
qed


lemma accept_seen:
  "cell_values state \<in> seen_signatures found \<Longrightarrow> accept found state = found"
  by (cases found) (simp add: accept_def insert_absorb)

text \<open>
  C4. The solutions that \<open>solve\<close> records have pairwise different cell-value maps, the
  seen-signatures set holds exactly these maps, and the count is their number: branches
  that end in the same map count once. A complete state whose map is already in the
  seen-signatures set leaves the recorded solutions unchanged.
\<close>

theorem solve_deduplicates:
  assumes "1 \<le> max_solutions s" and "max_solutions s \<le> INT_MAX"
    and "solve s = Some (n, found)"
  shows "distinct (map cell_values (solutions found)) \<and>
     seen_signatures found = set (map cell_values (solutions found)) \<and>
     n = int (card (cell_values ` set (solutions found))) \<and>
     set (solutions found) \<subseteq> accepted_below s initial \<and>
     (\<forall>state found0 found1.
        card (filled_cells state) = length (all_cells s) \<and>
        cell_values state \<in> seen_signatures found0 \<and>
        backtrack s found0 state = Some found1 \<longrightarrow> found1 = found0)"
proof -
  from solve_post [OF assms] have p: "post s (accepted_below s initial) no_solutions found"
    and n: "n = int (length (solutions found))" by simp_all
  from p have d: "distinct (map cell_values (solutions found))"
    and sn: "seen_signatures found = set (map cell_values (solutions found))"
    and sub: "set (solutions found) \<subseteq> accepted_below s initial"
    by (simp_all add: post_def signature_invariant_def no_solutions_def)
  from d have "card (cell_values ` set (solutions found)) = length (solutions found)"
    using distinct_card [of "map cell_values (solutions found)"] by simp
  with n have cnt: "n = int (card (cell_values ` set (solutions found)))" by simp
  have "found1 = found0"
    if "card (filled_cells state) = length (all_cells s)"
      "cell_values state \<in> seen_signatures found0"
      "backtrack s found0 state = Some found1" for state found0 found1
    using that
    by (subst (asm) backtrack_unfold) (auto simp: accept_seen split: if_splits option.splits)
  with d sn cnt sub show ?thesis by blast
qed

theorem solve_deduplicates_witness:
  "map_option fst (solve dd_solver) = Some 12 \<and>
   distinct (map cell_values (solutions (snd (the (solve dd_solver))))) \<and>
   accepted dd_solver dd_rows \<and>
   cell_values dd_rows \<in> seen_signatures (snd (the (solve dd_solver))) \<and>
   dd_rows \<notin> set (solutions (snd (the (solve dd_solver))))"
proof -
  have a: "map_option fst (solve dd_solver) = Some 12" by code_simp
  then obtain f where f: "solve dd_solver = Some (12, f)" by auto
  have k: "1 \<le> max_solutions dd_solver" "max_solutions dd_solver \<le> INT_MAX"
    by (simp_all add: dd_solver_def mk_Solver_config INT_MAX_def)
  from solve_deduplicates [OF k f]
  have "distinct (map cell_values (solutions (snd (the (solve dd_solver)))))"
    by (simp add: f)
  moreover have "accepted dd_solver dd_rows"
    unfolding accepted_def by code_simp
  moreover have "cell_values dd_rows \<in> seen_signatures (snd (the (solve dd_solver)))"
    by code_simp
  moreover have "dd_rows \<notin> set (solutions (snd (the (solve dd_solver))))"
    by code_simp
  ultimately show ?thesis using a by simp
qed

text \<open>
  C6 fails on the code: with no region the grid has no cell, the empty assignment is
  complete, no region rejects it, and \<open>solve\<close> records it and returns 1, not 0.
\<close>

theorem empty_regions_not_zero:
  "map_option fst (solve (mk_Solver [] [] 0 0 3)) = Some 1 \<and>
   map_option fst (solve (mk_Solver [] [] 0 0 3)) \<noteq> Some 0"
  by code_simp

text \<open>
  C6, amended. For an empty region list and a cap from 1 to \<open>INT_MAX\<close>, \<open>solve\<close> returns 1
  without placing a tile: its one solution is the empty assignment.
\<close>

theorem solve_empty_regions:
  assumes "1 \<le> k" and "k \<le> INT_MAX"
  shows "solve (mk_Solver doms [] r c k) =
     Some (1, \<lparr>solutions = [initial], seen_signatures = {[]}\<rparr>)"
proof -
  let ?s = "mk_Solver doms [] r c k"
  have s: "?s = \<lparr>dominoes = doms, regions = [], rows = r, cols = c, max_solutions = k,
           cell_to_region = Map.empty, region_by_id = Map.empty, all_cells = []\<rparr>"
    by (simp add: mk_Solver_def)
  have nc: "\<not> capped ?s no_solutions"
    using assms by (simp add: s capped_def size_t_of_int_small no_solutions_def)
  have "backtrack ?s no_solutions initial = Some (accept no_solutions initial)"
    using nc by (subst backtrack_unfold) (simp add: s initial_def)
  then show ?thesis
    by (simp add: solve_def accept_def no_solutions_def initial_def int_of_size_t_def)
qed

theorem solve_empty_regions_witness:
  "map_option fst (solve (mk_Solver ex_dominoes [] 0 0 3)) = Some 1"
  using solve_empty_regions [of 3 ex_dominoes 0 0] by (simp add: INT_MAX_def)

text \<open>
  C10. When \<open>test_puzzle\<close> is called with an output slot and returns, the count is the one
  that \<open>solve\<close> reports with cap 3; if it is 1, the one recorded solution's placement list
  has been written to the slot, and otherwise the slot holds what it held before.
\<close>

theorem test_puzzle_output:
  assumes "test_puzzle doms r c regs (Some old) = Some (count, out)"
  shows "\<exists>found. solve (mk_Solver doms regs r c 3) = Some (count, found) \<and>
     (count = 1 \<longrightarrow> (\<exists>st. solutions found = [st] \<and> out = Some (placed st))) \<and>
     (count \<noteq> 1 \<longrightarrow> out = Some old)"
proof -
  let ?s = "mk_Solver doms regs r c 3"
  from assms obtain n found where run: "solve ?s = Some (n, found)"
    by (auto simp: test_puzzle_def split: option.splits)
  have k: "1 \<le> max_solutions ?s" "max_solutions ?s \<le> INT_MAX"
    by (simp_all add: mk_Solver_config INT_MAX_def)
  from solve_post [OF k run] have len: "n = int (length (solutions found))" by simp
  show ?thesis
  proof (cases "n = 1")
    case True
    with len obtain st where st: "solutions found = [st]"
      by (cases "solutions found") auto
    with assms run True show ?thesis by (auto simp: test_puzzle_def)
  next
    case False
    with assms run show ?thesis by (auto simp: test_puzzle_def)
  qed
qed

theorem test_puzzle_output_witness:
  "test_puzzle one_dominoes 1 2 one_regions (Some []) =
     Some (1, Some [\<lparr>domino = \<lparr>low = 3, high = 3\<rparr>, row = 0, col = 0, horizontal = True\<rparr>]) \<and>
   test_puzzle ex_dominoes 2 2 [ex_top, ex_bottom] (Some []) = Some (3, Some [])"
proof -
  have a: "test_puzzle one_dominoes 1 2 one_regions (Some []) =
     Some (1, Some [\<lparr>domino = \<lparr>low = 3, high = 3\<rparr>, row = 0, col = 0, horizontal = True\<rparr>])"
    by code_simp
  have b: "test_puzzle ex_dominoes 2 2 [ex_top, ex_bottom] (Some []) = Some (3, Some [])"
    by code_simp
  from test_puzzle_output [OF a] test_puzzle_output [OF b] a b show ?thesis by simp
qed


section \<open>Exclusion filtering is a set difference\<close>

lemma Domino_eq_iff: "(d :: Domino) = e \<longleftrightarrow> low d = low e \<and> high d = high e"
  by (cases d, cases e) simp

lemma found_in_iff: "found_in d exclude \<longleftrightarrow> d \<in> set exclude"
  by (induction exclude) (auto simp: Domino_eq_iff)

lemma exclude_dominoes_filter:
  "exclude_dominoes pool exclude = filter (\<lambda>d. d \<notin> set exclude) pool"
  by (induction pool) (simp_all add: found_in_iff)

text \<open>
  C8. \<open>exclude_dominoes\<close> returns the tiles of the pool that equal no tile of the
  exclusion list, in the pool's order; with the four tiles of an earlier tier as the
  exclusion list, the tiles of the result are those of the pool minus exactly these four.
\<close>

theorem exclude_dominoes_set_difference:
  "exclude_dominoes pool exclude = filter (\<lambda>d. d \<notin> set exclude) pool \<and>
   set (exclude_dominoes pool exclude) = set pool - set exclude \<and>
   set (exclude_dominoes pool [t1, t2, t3, t4]) = set pool - {t1, t2, t3, t4}"
  by (auto simp: exclude_dominoes_filter)

theorem exclude_dominoes_set_difference_witness:
  "exclude_dominoes
     [\<lparr>low = 0, high = 0\<rparr>, \<lparr>low = 0, high = 1\<rparr>, \<lparr>low = 1, high = 1\<rparr>, \<lparr>low = 0, high = 2\<rparr>,
      \<lparr>low = 1, high = 2\<rparr>, \<lparr>low = 2, high = 2\<rparr>]
     [\<lparr>low = 0, high = 1\<rparr>, \<lparr>low = 2, high = 2\<rparr>, \<lparr>low = 0, high = 0\<rparr>, \<lparr>low = 5, high = 6\<rparr>]
   = [\<lparr>low = 1, high = 1\<rparr>, \<lparr>low = 0, high = 2\<rparr>, \<lparr>low = 1, high = 2\<rparr>]"
  using exclude_dominoes_set_difference
    [of "[\<lparr>low = 0, high = 0\<rparr>, \<lparr>low = 0, high = 1\<rparr>, \<lparr>low = 1, high = 1\<rparr>, \<lparr>low = 0, high = 2\<rparr>,
          \<lparr>low = 1, high = 2\<rparr>, \<lparr>low = 2, high = 2\<rparr>]"
        "[\<lparr>low = 0, high = 1\<rparr>, \<lparr>low = 2, high = 2\<rparr>, \<lparr>low = 0, high = 0\<rparr>, \<lparr>low = 5, high = 6\<rparr>]"]
  by simp

end
